theory Spec2Isabelle
  imports Main "HOL-Library.Sublist"
begin

section \<open>The service worker of wavenet-for-chrome: playback queue, prefetch and cancellation\<close>

text \<open>
  The theory embeds \<^verbatim>\<open>src/service-worker.js\<close>. The handlers are JavaScript
  \<^verbatim>\<open>async\<close> functions that share three module variables (\<^verbatim>\<open>queue\<close>,
  \<^verbatim>\<open>playing\<close>, \<^verbatim>\<open>cancellationToken\<close>). JavaScript runs one handler at a time and
  only switches at an \<^verbatim>\<open>await\<close>, so each handler is modelled as a coroutine: a program
  counter that names the \<^verbatim>\<open>await\<close> it is suspended at, plus its local variables. One
  \<^emph>\<open>input\<close> of the model is one thing the browser does: it invokes a handler, or it
  settles one promise a handler is waiting for. The function \<open>step\<close> then runs the code
  from that \<^verbatim>\<open>await\<close> up to the next one, exactly as the event loop does. Awaiting a
  promise that is already settled does not suspend (the continuation runs in a microtask,
  before any other browser event).

  Everything the code sends to the outside is appended to \<open>trace\<close>, and so is the
  answer to a \<^verbatim>\<open>play\<close> message, so that the trace orders requests and playbacks.
\<close>

subsection \<open>Data\<close>

text \<open>
  The value of \<^verbatim>\<open>getAudioUri\<close>: the source builds
  \<^verbatim>\<open>`data:audio/${fileExtMap[encoding]};base64,` + btoa(audioContents.map(atob).join(''))\<close>.
  \<^verbatim>\<open>fileExtMap\<close> lives in a helper that is not part of the sources, and the
  base64 recoding plays no role here, so the URI is kept as the encoding together with the
  list of audio contents it was assembled from.
\<close>

datatype audio_uri = DataUri string "string list"

text \<open>
  What \<^verbatim>\<open>synthesize\<close> can throw: \<^verbatim>\<open>new Error('API key is missing or invalid')\<close>
  (line 218), \<^verbatim>\<open>new Error(message)\<close> after a response that is not ok (line 262, the
  message is \<^verbatim>\<open>error?.message\<close> and may be undefined), or the rejection of
  \<^verbatim>\<open>fetch\<close> itself.
\<close>

datatype synth_error = AuthError | BackendError "string option" | NetworkError

text \<open>
  A task that can wait for the offscreen document or for the answer to a message:
  the \<open>r\<close>-th invocation of \<^verbatim>\<open>readAloud\<close>, the \<open>k\<close>-th top-level invocation of
  \<^verbatim>\<open>stopReading\<close>, or the \<open>i\<close>-th \<^verbatim>\<open>synthesize\<close> call of the \<open>c\<close>-th
  \<^verbatim>\<open>getAudioUri\<close> call.
\<close>

datatype tid = Reader nat | Stopper nat | Synth nat nat

datatype fetch_result = FetchOk string | FetchNotOk "string option" | FetchRejected

datatype input =
    InvokeReadAloud string          \<comment> \<open>\<^verbatim>\<open>handlers.readAloud({ text })\<close> is called\<close>
  | InvokeStopReading             \<comment> \<open>\<^verbatim>\<open>handlers.stopReading()\<close> is called\<close>
  | SyncGot nat string            \<comment> \<open>line 89 of reader \<open>r\<close> resolves; the string is \<^verbatim>\<open>readAloudEncoding\<close>\<close>
  | SynSyncGot nat nat bool       \<comment> \<open>line 204 resolves; the flag is \<^verbatim>\<open>sync.apiKey && sync.apiKeyValid\<close>\<close>
  | FetchDone nat nat fetch_result \<comment> \<open>the \<^verbatim>\<open>fetch\<close> of line 240 and the reading of its body settle\<close>
  | SinkReady tid bool            \<comment> \<open>\<^verbatim>\<open>createOffscreenDocument()\<close> of that task resolves (True) or rejects\<close>
  | Reply tid bool                \<comment> \<open>\<^verbatim>\<open>chrome.runtime.sendMessage\<close> of that task resolves (True) or rejects\<close>
  | TabsGot nat bool              \<comment> \<open>line 519 of the \<open>n\<close>-th \<^verbatim>\<open>sendMessageToCurrentTab\<close> resolves; True when there is a current tab\<close>

datatype event =
    UpdateContextMenus bool       \<comment> \<open>\<^verbatim>\<open>updateContextMenus()\<close> called while \<^verbatim>\<open>playing\<close> has this value\<close>
  | ReqAudio nat string           \<comment> \<open>reader \<open>r\<close> calls \<^verbatim>\<open>getAudioUri\<close> for this text\<close>
  | Fetch nat nat string          \<comment> \<open>the POST to \<^verbatim>\<open>text:synthesize\<close> is issued\<close>
  | SetError string "string option" \<comment> \<open>line 527: \<^verbatim>\<open>setError\<close> is sent to the current tab, with title and message\<close>
  | WarnNoTab                     \<comment> \<open>\<^verbatim>\<open>console.warn('No current tab found. Aborting message send.')\<close>\<close>
  | Analytics nat                 \<comment> \<open>the fire-and-forget POST of line 269, with \<^verbatim>\<open>count\<close>\<close>
  | AcquireSink tid               \<comment> \<open>\<^verbatim>\<open>createOffscreenDocument()\<close> is called\<close>
  | SendPlay nat "audio_uri option" \<comment> \<open>the \<^verbatim>\<open>play\<close> message of reader \<open>r\<close> is sent\<close>
  | PlayEnded nat                 \<comment> \<open>the \<^verbatim>\<open>play\<close> message of reader \<open>r\<close> was answered: playback is over\<close>
  | PlayFailed nat                \<comment> \<open>the \<^verbatim>\<open>play\<close> message of reader \<open>r\<close> was rejected\<close>
  | WarnPlay nat                  \<comment> \<open>\<^verbatim>\<open>console.warn('Failed to play audio', e)\<close>\<close>
  | SendStop tid                  \<comment> \<open>the \<^verbatim>\<open>stop\<close> message is sent\<close>
  | WarnStop tid                  \<comment> \<open>\<^verbatim>\<open>console.warn('Failed to stop audio', e)\<close>\<close>
  | StopReturned tid              \<comment> \<open>\<^verbatim>\<open>stopReading\<close> returns\<close>

text \<open>The two places \<^verbatim>\<open>stopReading\<close> can be suspended at (lines 164 and 165).\<close>

datatype stop_pc = ST_AwaitSink | ST_AwaitReply

text \<open>
  A \<^verbatim>\<open>synthesize\<close> call: suspended at line 204, at line 240, inside the
  \<^verbatim>\<open>stopReading\<close> of line 260 (remembering the message it will throw), or finished.
\<close>

datatype syn_pc =
    SY_AwaitSync
  | SY_AwaitFetch
  | SY_AwaitStop stop_pc "string option"
  | SY_Returned string
  | SY_Threw synth_error

text \<open>
  One call of \<^verbatim>\<open>getAudioUri\<close>: the \<^verbatim>\<open>synthesize\<close> calls it mapped over
  \<^verbatim>\<open>text.chunk()\<close>, and the state of its \<^verbatim>\<open>Promise.all\<close> (\<open>None\<close> while pending).
  \<open>c_owner\<close> records which reader made the call; the source has no such field, it only
  serves to state properties per session.
\<close>

record call =
  c_owner :: nat
  c_encoding :: string
  c_subs :: "(string \<times> syn_pc) list"
  c_result :: "(synth_error + audio_uri) option"

text \<open>
  How \<^verbatim>\<open>readAloud\<close> ends: \<^verbatim>\<open>Promise.resolve(true)\<close> (line 135), a bare
  \<^verbatim>\<open>return\<close> (lines 98 and 126), or the exception of an awaited \<^verbatim>\<open>getAudioUri\<close>.
\<close>

datatype ra_result = RetTrue | RetUndefined | Threw synth_error

datatype ra_pc =
    RA_AwaitStop stop_pc          \<comment> \<open>line 79\<close>
  | RA_AwaitSync                  \<comment> \<open>line 89\<close>
  | RA_AwaitAudio nat             \<comment> \<open>lines 108 to 111, waiting for that \<^verbatim>\<open>getAudioUri\<close> call\<close>
  | RA_AwaitSink "audio_uri option" \<comment> \<open>line 114, holding \<^verbatim>\<open>audioUri\<close>\<close>
  | RA_AwaitPlay                  \<comment> \<open>line 115\<close>
  | RA_Done ra_result

record reader =
  ra_pc :: ra_pc
  ra_text :: string
  ra_count :: nat
  ra_encoding :: string
  ra_prefetchQueue :: "nat list"

text \<open>
  The service worker: the three module variables of lines 6 to 8, the coroutines, and
  the trace. A top-level \<^verbatim>\<open>stopReading\<close> that has returned is \<open>None\<close>. A call of
  \<^verbatim>\<open>sendMessageToCurrentTab\<close> holds the title and message of its \<^verbatim>\<open>setError\<close>
  event while it waits for \<^verbatim>\<open>chrome.tabs.query\<close>, and is \<open>None\<close> afterwards.
\<close>

record sw =
  queue :: "string list"
  playing :: bool
  cancellationToken :: bool
  readers :: "reader list"
  stoppers :: "stop_pc option list"
  calls :: "call list"
  tabQueries :: "(string \<times> string option) option list"
  trace :: "event list"

definition init :: sw where
  "init = \<lparr>queue = [], playing = False, cancellationToken = False,
            readers = [], stoppers = [], calls = [], tabQueries = [], trace = []\<rparr>"

subsection \<open>Helpers\<close>

definition emit :: "event list \<Rightarrow> sw \<Rightarrow> sw" where
  "emit es g = g\<lparr>trace := trace g @ es\<rparr>"

definition set_pc :: "nat \<Rightarrow> ra_pc \<Rightarrow> sw \<Rightarrow> sw" where
  "set_pc r pc g = g\<lparr>readers := (readers g)[r := (readers g ! r)\<lparr>ra_pc := pc\<rparr>]\<rparr>"

definition set_sub :: "nat \<Rightarrow> nat \<Rightarrow> syn_pc \<Rightarrow> sw \<Rightarrow> sw" where
  "set_sub c i pc g =
     (let cl = calls g ! c
      in g\<lparr>calls := (calls g)[c := cl\<lparr>c_subs := (c_subs cl)[i := (fst (c_subs cl ! i), pc)]\<rparr>]\<rparr>)"

text \<open>
  \<^verbatim>\<open>updateContextMenus\<close> (line 324) is called without \<^verbatim>\<open>await\<close>; the model records
  the call and the value \<^verbatim>\<open>playing\<close> has at that moment.
\<close>

definition updateContextMenus :: "sw \<Rightarrow> sw" where
  "updateContextMenus g = emit [UpdateContextMenus (playing g)] g"

text \<open>
  \<^verbatim>\<open>createOffscreenDocument\<close> (line 382) always suspends, at
  \<^verbatim>\<open>await hasOffscreenDocument(path)\<close>. For the session it is one asynchronous call
  that the browser later resolves or rejects (input \<open>SinkReady\<close>); what happens inside it
  is modelled separately below.
\<close>

definition createOffscreenDocument :: "tid \<Rightarrow> sw \<Rightarrow> sw" where
  "createOffscreenDocument t g = emit [AcquireSink t] g"

subsection \<open>stopReading (lines 155 to 174)\<close>

definition stopReading :: "tid \<Rightarrow> sw \<Rightarrow> sw" where
  "stopReading t g =
     createOffscreenDocument t
       (updateContextMenus (g\<lparr>cancellationToken := True, queue := [], playing := False\<rparr>))"

text \<open>
  Resuming \<^verbatim>\<open>stopReading\<close>: the flag says whether the awaited promise resolved. The
  result is the next suspension point, or \<open>None\<close> when the function has returned
  (\<^verbatim>\<open>Promise.resolve(true)\<close>, also after the \<^verbatim>\<open>catch\<close>).
\<close>

definition stopReading_resume :: "tid \<Rightarrow> stop_pc \<Rightarrow> bool \<Rightarrow> sw \<Rightarrow> sw \<times> stop_pc option" where
  "stopReading_resume t pc ok g =
     (case pc of
        ST_AwaitSink \<Rightarrow>
          if ok then (emit [SendStop t] g, Some ST_AwaitReply)
          else (emit [WarnStop t, StopReturned t] g, None)
      | ST_AwaitReply \<Rightarrow>
          if ok then (emit [StopReturned t] g, None)
          else (emit [WarnStop t, StopReturned t] g, None))"

subsection \<open>getAudioUri and synthesize (lines 201 to 299)\<close>

text \<open>
  \<^verbatim>\<open>String.prototype.chunk\<close> comes from \<^verbatim>\<open>helpers/text-helpers.js\<close>, which is
  not among the sources; it is the parameter \<open>chunk\<close> of every function that needs it.

  \<^verbatim>\<open>getAudioUri\<close> chunks its text again and starts one \<^verbatim>\<open>synthesize\<close> per piece;
  each runs up to its first \<^verbatim>\<open>await\<close> (line 204). The new call gets the next free
  index of \<open>calls\<close>. \<^verbatim>\<open>Promise.all\<close> of no promises is already resolved.
\<close>

definition getAudioUri :: "(string \<Rightarrow> string list) \<Rightarrow> nat \<Rightarrow> string \<Rightarrow> string \<Rightarrow> sw \<Rightarrow> sw" where
  "getAudioUri chunk r txt encoding g =
     (let chunks = chunk txt;
          cl = \<lparr>c_owner = r, c_encoding = encoding,
                c_subs = map (\<lambda>t. (t, SY_AwaitSync)) chunks,
                c_result = (if chunks = [] then Some (Inr (DataUri encoding [])) else None)\<rparr>
      in emit [ReqAudio r txt] (g\<lparr>calls := calls g @ [cl]\<rparr>))"

text \<open>Lines 113 and 114: \<^verbatim>\<open>audioUri\<close> is known, the \<^verbatim>\<open>try\<close> block is entered.\<close>

definition play :: "nat \<Rightarrow> audio_uri option \<Rightarrow> sw \<Rightarrow> sw" where
  "play r audioUri g = createOffscreenDocument (Reader r) (set_pc r (RA_AwaitSink audioUri) g)"

text \<open>
  The awaited \<^verbatim>\<open>getAudioUri\<close> settles: a rejection leaves \<^verbatim>\<open>readAloud\<close> as an
  exception (nothing catches it, and no module variable is touched on the way out).
\<close>

definition audio_settled :: "nat \<Rightarrow> synth_error + audio_uri \<Rightarrow> sw \<Rightarrow> sw" where
  "audio_settled r res g =
     (case res of Inl e \<Rightarrow> set_pc r (RA_Done (Threw e)) g | Inr uri \<Rightarrow> play r (Some uri) g)"

text \<open>
  The \<^verbatim>\<open>Promise.all\<close> of call \<open>c\<close> settles; if the reader that made the call is
  suspended on it, the reader continues.
\<close>

definition settle :: "nat \<Rightarrow> synth_error + audio_uri \<Rightarrow> sw \<Rightarrow> sw" where
  "settle c res g =
     (let r = c_owner (calls g ! c);
          g1 = g\<lparr>calls := (calls g)[c := (calls g ! c)\<lparr>c_result := Some res\<rparr>]\<rparr>
      in if r < length (readers g1) \<and> ra_pc (readers g1 ! r) = RA_AwaitAudio c
         then audio_settled r res g1 else g1)"

definition synth_throw :: "nat \<Rightarrow> nat \<Rightarrow> synth_error \<Rightarrow> sw \<Rightarrow> sw" where
  "synth_throw c i e g =
     (let g1 = set_sub c i (SY_Threw e) g
      in if c_result (calls g1 ! c) = None then settle c (Inl e) g1 else g1)"

fun returned :: "string \<times> syn_pc \<Rightarrow> bool" where
  "returned (t, SY_Returned a) = True"
| "returned (t, pc) = False"

fun audioContent :: "string \<times> syn_pc \<Rightarrow> string" where
  "audioContent (t, SY_Returned a) = a"
| "audioContent (t, pc) = []"

definition synth_return :: "nat \<Rightarrow> nat \<Rightarrow> string \<Rightarrow> sw \<Rightarrow> sw" where
  "synth_return c i a g =
     (let g1 = set_sub c i (SY_Returned a) g; cl = calls g1 ! c
      in if c_result cl = None \<and> list_all returned (c_subs cl)
         then settle c (Inr (DataUri (c_encoding cl) (map audioContent (c_subs cl)))) g1
         else g1)"

text \<open>
  \<^verbatim>\<open>sendMessageToCurrentTab\<close> (line 516) is called without \<^verbatim>\<open>await\<close> and suspends at
  \<^verbatim>\<open>chrome.tabs.query\<close>. When the tabs arrive, the event is sent to the current tab
  (line 527), or, when there is none, only a warning is logged and nothing is sent. A
  query that is never answered leaves the event pending, and nothing is sent either.
\<close>

definition sendMessageToCurrentTab :: "string \<Rightarrow> string option \<Rightarrow> sw \<Rightarrow> sw" where
  "sendMessageToCurrentTab title message g = g\<lparr>tabQueries := tabQueries g @ [Some (title, message)]\<rparr>"

definition tabs_got :: "nat \<Rightarrow> bool \<Rightarrow> sw \<Rightarrow> sw" where
  "tabs_got n hasTab g =
     (case tabQueries g ! n of
        None \<Rightarrow> g
      | Some (title, message) \<Rightarrow>
          emit [if hasTab then SetError title message else WarnNoTab]
            (g\<lparr>tabQueries := (tabQueries g)[n := None]\<rparr>))"

text \<open>Lines 208 to 240 of \<^verbatim>\<open>synthesize\<close>, after the settings have been read.\<close>

definition synthesize_sync :: "nat \<Rightarrow> nat \<Rightarrow> bool \<Rightarrow> sw \<Rightarrow> sw" where
  "synthesize_sync c i keyOk g =
     (if \<not> keyOk then
        synth_throw c i AuthError
          (sendMessageToCurrentTab ''API key is missing or invalid''
             (Some ''Please enter a valid API key in the extension popup. Video instructions are available here: https://www.youtube.com/watch?v=1n8xlVNWEZ0'') g)
      else set_sub c i SY_AwaitFetch (emit [Fetch c i (fst (c_subs (calls g ! c) ! i))] g))"

text \<open>Lines 252 to 284: the response has arrived.\<close>

definition synthesize_fetched :: "nat \<Rightarrow> nat \<Rightarrow> fetch_result \<Rightarrow> sw \<Rightarrow> sw" where
  "synthesize_fetched c i res g =
     (case res of
        FetchOk a \<Rightarrow> synth_return c i a (emit [Analytics (length (fst (c_subs (calls g ! c) ! i)))] g)
      | FetchNotOk message \<Rightarrow>
          set_sub c i (SY_AwaitStop ST_AwaitSink message)
            (stopReading (Synth c i) (sendMessageToCurrentTab ''Failed to synthesize text'' message g))
      | FetchRejected \<Rightarrow> synth_throw c i NetworkError g)"

text \<open>Line 260 continues; when \<^verbatim>\<open>stopReading\<close> has returned, line 262 throws.\<close>

definition synth_stop_resume :: "nat \<Rightarrow> nat \<Rightarrow> stop_pc \<Rightarrow> string option \<Rightarrow> bool \<Rightarrow> sw \<Rightarrow> sw" where
  "synth_stop_resume c i pc message ok g =
     (case stopReading_resume (Synth c i) pc ok g of
        (g1, Some pc1) \<Rightarrow> set_sub c i (SY_AwaitStop pc1 message) g1
      | (g1, None) \<Rightarrow> synth_throw c i (BackendError message) g1)"

subsection \<open>readAloud (lines 76 to 136)\<close>

text \<open>
  \<^verbatim>\<open>await prefetchQueue.shift()\<close> on an empty array awaits \<^verbatim>\<open>undefined\<close>, which
  continues with \<^verbatim>\<open>audioUri\<close> undefined.
\<close>

definition await_audio :: "nat \<Rightarrow> nat option \<Rightarrow> sw \<Rightarrow> sw" where
  "await_audio r p g =
     (case p of
        None \<Rightarrow> play r None g
      | Some c \<Rightarrow>
          (case c_result (calls g ! c) of
             None \<Rightarrow> set_pc r (RA_AwaitAudio c) g
           | Some res \<Rightarrow> audio_settled r res g))"

definition set_prefetchQueue :: "nat \<Rightarrow> nat list \<Rightarrow> sw \<Rightarrow> sw" where
  "set_prefetchQueue r q g =
     g\<lparr>readers := (readers g)[r := (readers g ! r)\<lparr>ra_prefetchQueue := q\<rparr>]\<rparr>"

text \<open>
  The \<^verbatim>\<open>while\<close> loop from its test (line 93) to the next suspension. \<^verbatim>\<open>nextText\<close> is
  \<^verbatim>\<open>queue[0]\<close> after the shift: undefined for an empty queue, and the empty string is as
  falsy as undefined. The prefetch is started (lines 104 to 106) before the audio of the
  current chunk is requested or awaited (lines 108 to 111).
\<close>

definition drain :: "(string \<Rightarrow> string list) \<Rightarrow> nat \<Rightarrow> sw \<Rightarrow> sw" where
  "drain chunk r g =
     (case queue g of
        [] \<Rightarrow> updateContextMenus (set_pc r (RA_Done RetTrue) (g\<lparr>playing := False\<rparr>))
      | txt # rest \<Rightarrow>
          if cancellationToken g then
            updateContextMenus
              (set_pc r (RA_Done RetUndefined) (g\<lparr>cancellationToken := False, playing := False\<rparr>))
          else
            let encoding = ra_encoding (readers g ! r);
                g1 = g\<lparr>queue := rest\<rparr>;
                g2 = (case rest of
                        [] \<Rightarrow> g1
                      | nextText # _ \<Rightarrow>
                          if nextText \<noteq> [] then
                            set_prefetchQueue r
                              (ra_prefetchQueue (readers g1 ! r) @ [length (calls g1)])
                              (getAudioUri chunk r nextText encoding g1)
                          else g1)
            in if ra_count (readers g2 ! r) = 0 then
                 await_audio r (Some (length (calls g2))) (getAudioUri chunk r txt encoding g2)
               else
                 (case ra_prefetchQueue (readers g2 ! r) of
                    [] \<Rightarrow> await_audio r None g2
                  | c # cs \<Rightarrow> await_audio r (Some c) (set_prefetchQueue r cs g2)))"

text \<open>Lines 81 to 89: the part of \<^verbatim>\<open>readAloud\<close> after the optional \<^verbatim>\<open>stopReading\<close>.\<close>

definition readAloud_begin :: "(string \<Rightarrow> string list) \<Rightarrow> nat \<Rightarrow> sw \<Rightarrow> sw" where
  "readAloud_begin chunk r g =
     (let chunks = chunk (ra_text (readers g ! r));
          g1 = updateContextMenus (g\<lparr>queue := queue g @ chunks, playing := True\<rparr>)
      in g1\<lparr>readers := (readers g1)[r := (readers g1 ! r)\<lparr>ra_pc := RA_AwaitSync, ra_count := 0\<rparr>]\<rparr>)"

text \<open>Lines 76 to 79: a new invocation; it is the reader with the next free index.\<close>

definition readAloud :: "(string \<Rightarrow> string list) \<Rightarrow> string \<Rightarrow> sw \<Rightarrow> sw" where
  "readAloud chunk txt g =
     (let r = length (readers g);
          rd = \<lparr>ra_pc = RA_AwaitStop ST_AwaitSink, ra_text = txt, ra_count = 0,
                ra_encoding = [], ra_prefetchQueue = []\<rparr>;
          g1 = g\<lparr>readers := readers g @ [rd]\<rparr>
      in if playing g then stopReading (Reader r) g1 else readAloud_begin chunk r g1)"

text \<open>Lines 90 to 93, after the settings have been read.\<close>

definition readAloud_synced :: "(string \<Rightarrow> string list) \<Rightarrow> nat \<Rightarrow> string \<Rightarrow> sw \<Rightarrow> sw" where
  "readAloud_synced chunk r encoding g =
     drain chunk r
       (g\<lparr>readers := (readers g)[r := (readers g ! r)\<lparr>ra_encoding := encoding, ra_prefetchQueue := []\<rparr>],
          cancellationToken := False\<rparr>)"

text \<open>Line 115 or the \<^verbatim>\<open>catch\<close> of line 120, once \<^verbatim>\<open>createOffscreenDocument\<close> has settled.\<close>

definition readAloud_sink :: "nat \<Rightarrow> audio_uri option \<Rightarrow> bool \<Rightarrow> sw \<Rightarrow> sw" where
  "readAloud_sink r audioUri ok g =
     (if ok then set_pc r RA_AwaitPlay (emit [SendPlay r audioUri] g)
      else set_pc r (RA_Done RetUndefined) (emit [WarnPlay r] g))"

text \<open>Lines 129 and 130 and the next round of the loop, or the \<^verbatim>\<open>catch\<close> of line 120.\<close>

definition readAloud_played :: "(string \<Rightarrow> string list) \<Rightarrow> nat \<Rightarrow> bool \<Rightarrow> sw \<Rightarrow> sw" where
  "readAloud_played chunk r ok g =
     (if ok then
        (let g1 = emit [PlayEnded r] g
         in drain chunk r
              (g1\<lparr>readers := (readers g1)[r := (readers g1 ! r)\<lparr>ra_count := Suc (ra_count (readers g1 ! r))\<rparr>]\<rparr>))
      else set_pc r (RA_Done RetUndefined) (emit [PlayFailed r, WarnPlay r] g))"

definition reader_stop_resume :: "(string \<Rightarrow> string list) \<Rightarrow> nat \<Rightarrow> stop_pc \<Rightarrow> bool \<Rightarrow> sw \<Rightarrow> sw" where
  "reader_stop_resume chunk r pc ok g =
     (case stopReading_resume (Reader r) pc ok g of
        (g1, Some pc1) \<Rightarrow> set_pc r (RA_AwaitStop pc1) g1
      | (g1, None) \<Rightarrow> readAloud_begin chunk r g1)"

definition stopper_resume :: "nat \<Rightarrow> stop_pc \<Rightarrow> bool \<Rightarrow> sw \<Rightarrow> sw" where
  "stopper_resume k pc ok g =
     (case stopReading_resume (Stopper k) pc ok g of
        (g1, pc1) \<Rightarrow> g1\<lparr>stoppers := (stoppers g1)[k := pc1]\<rparr>)"

subsection \<open>The event loop\<close>

text \<open>
  \<open>resume t pc ok g\<close> continues the \<^verbatim>\<open>stopReading\<close> that task \<open>t\<close> is waiting in, or
  the \<^verbatim>\<open>try\<close> block of a reader. An input that no task is waiting for changes nothing.
\<close>

definition sink_ready :: "(string \<Rightarrow> string list) \<Rightarrow> tid \<Rightarrow> bool \<Rightarrow> sw \<Rightarrow> sw" where
  "sink_ready chunk t ok g =
     (case t of
        Reader r \<Rightarrow>
          if r < length (readers g) then
            (case ra_pc (readers g ! r) of
               RA_AwaitStop ST_AwaitSink \<Rightarrow> reader_stop_resume chunk r ST_AwaitSink ok g
             | RA_AwaitSink audioUri \<Rightarrow> readAloud_sink r audioUri ok g
             | _ \<Rightarrow> g)
          else g
      | Stopper k \<Rightarrow>
          if k < length (stoppers g) \<and> stoppers g ! k = Some ST_AwaitSink
          then stopper_resume k ST_AwaitSink ok g else g
      | Synth c i \<Rightarrow>
          if c < length (calls g) \<and> i < length (c_subs (calls g ! c)) then
            (case snd (c_subs (calls g ! c) ! i) of
               SY_AwaitStop ST_AwaitSink message \<Rightarrow> synth_stop_resume c i ST_AwaitSink message ok g
             | _ \<Rightarrow> g)
          else g)"

definition reply :: "(string \<Rightarrow> string list) \<Rightarrow> tid \<Rightarrow> bool \<Rightarrow> sw \<Rightarrow> sw" where
  "reply chunk t ok g =
     (case t of
        Reader r \<Rightarrow>
          if r < length (readers g) then
            (case ra_pc (readers g ! r) of
               RA_AwaitStop ST_AwaitReply \<Rightarrow> reader_stop_resume chunk r ST_AwaitReply ok g
             | RA_AwaitPlay \<Rightarrow> readAloud_played chunk r ok g
             | _ \<Rightarrow> g)
          else g
      | Stopper k \<Rightarrow>
          if k < length (stoppers g) \<and> stoppers g ! k = Some ST_AwaitReply
          then stopper_resume k ST_AwaitReply ok g else g
      | Synth c i \<Rightarrow>
          if c < length (calls g) \<and> i < length (c_subs (calls g ! c)) then
            (case snd (c_subs (calls g ! c) ! i) of
               SY_AwaitStop ST_AwaitReply message \<Rightarrow> synth_stop_resume c i ST_AwaitReply message ok g
             | _ \<Rightarrow> g)
          else g)"

fun step :: "(string \<Rightarrow> string list) \<Rightarrow> input \<Rightarrow> sw \<Rightarrow> sw" where
  "step chunk (InvokeReadAloud txt) g = readAloud chunk txt g"
| "step chunk InvokeStopReading g =
     (stopReading (Stopper (length (stoppers g))) g)\<lparr>stoppers := stoppers g @ [Some ST_AwaitSink]\<rparr>"
| "step chunk (SyncGot r encoding) g =
     (if r < length (readers g) \<and> ra_pc (readers g ! r) = RA_AwaitSync
      then readAloud_synced chunk r encoding g else g)"
| "step chunk (SynSyncGot c i keyOk) g =
     (if c < length (calls g) \<and> i < length (c_subs (calls g ! c))
         \<and> snd (c_subs (calls g ! c) ! i) = SY_AwaitSync
      then synthesize_sync c i keyOk g else g)"
| "step chunk (FetchDone c i res) g =
     (if c < length (calls g) \<and> i < length (c_subs (calls g ! c))
         \<and> snd (c_subs (calls g ! c) ! i) = SY_AwaitFetch
      then synthesize_fetched c i res g else g)"
| "step chunk (SinkReady t ok) g = sink_ready chunk t ok g"
| "step chunk (Reply t ok) g = reply chunk t ok g"
| "step chunk (TabsGot n hasTab) g = (if n < length (tabQueries g) then tabs_got n hasTab g else g)"

fun run :: "(string \<Rightarrow> string list) \<Rightarrow> input list \<Rightarrow> sw \<Rightarrow> sw" where
  "run chunk [] g = g"
| "run chunk (i # is) g = run chunk is (step chunk i g)"

text \<open>
  A chunker to run the model on concrete texts: one chunk per character. It stands in for
  the missing helper in closed examples only; every general theorem below holds for an
  arbitrary \<open>chunk\<close>.
\<close>

definition chunk_chars :: "string \<Rightarrow> string list" where
  "chunk_chars t = map (\<lambda>c. [c]) t"

subsection \<open>The offscreen document (lines 381 to 411)\<close>














subsection \<open>Observations on states and traces\<close>

text \<open>The events a run has added to the trace of the state it started from.\<close>

definition news :: "sw \<Rightarrow> sw \<Rightarrow> event list" where
  "news g g' = drop (length (trace g)) (trace g')"

text \<open>A reader that is still inside the \<^verbatim>\<open>stopReading\<close> of line 79.\<close>

fun awaits_stop :: "ra_pc \<Rightarrow> bool" where
  "awaits_stop (RA_AwaitStop p) = True"
| "awaits_stop pc = False"

definition starting :: "sw \<Rightarrow> bool" where
  "starting g = list_ex (\<lambda>rd. awaits_stop (ra_pc rd)) (readers g)"

fun is_invoke :: "input \<Rightarrow> bool" where
  "is_invoke (InvokeReadAloud t) = True"
| "is_invoke i = False"

fun is_req :: "event \<Rightarrow> bool" where
  "is_req (ReqAudio r t) = True"
| "is_req e = False"

text \<open>
  The \<^verbatim>\<open>getAudioUri\<close> calls of reader \<open>r\<close> whose promise is still pending, and the
  \<^verbatim>\<open>play\<close> messages of reader \<open>r\<close> that have been sent and not yet answered.
\<close>

definition inflight :: "nat \<Rightarrow> sw \<Rightarrow> nat" where
  "inflight r g = length (filter (\<lambda>cl. c_owner cl = r \<and> c_result cl = None) (calls g))"

fun play_sent :: "nat \<Rightarrow> event \<Rightarrow> bool" where
  "play_sent r (SendPlay r' u) = (r' = r)"
| "play_sent r e = False"

fun play_answered :: "nat \<Rightarrow> event \<Rightarrow> bool" where
  "play_answered r (PlayEnded r') = (r' = r)"
| "play_answered r (PlayFailed r') = (r' = r)"
| "play_answered r e = False"

definition playbacks :: "nat \<Rightarrow> sw \<Rightarrow> nat" where
  "playbacks r g =
     length (filter (play_sent r) (trace g)) - length (filter (play_answered r) (trace g))"

text \<open>
  \<open>preceded P Q es\<close>: no event satisfying \<open>Q\<close> occurs in \<open>es\<close> before the first event
  satisfying \<open>P\<close>.
\<close>

fun preceded :: "('a \<Rightarrow> bool) \<Rightarrow> ('a \<Rightarrow> bool) \<Rightarrow> 'a list \<Rightarrow> bool" where
  "preceded P Q [] = True"
| "preceded P Q (e # es) = (if P e then True else if Q e then False else preceded P Q es)"

fun req_of :: "nat \<Rightarrow> event \<Rightarrow> bool" where
  "req_of r (ReqAudio r' t) = (r' = r)"
| "req_of r e = False"

text \<open>
  Reader \<open>r\<close> is suspended at \<open>pc\<close>, which is not the wait for a \<^verbatim>\<open>getAudioUri\<close>
  call, and since the trace was \<open>t\<close> it has neither asked for audio nor seen its initial
  \<^verbatim>\<open>stopReading\<close> return.
\<close>

definition quiet :: "nat \<Rightarrow> event list \<Rightarrow> bool" where
  "quiet r es = list_all (\<lambda>e. \<not> req_of r e \<and> e \<noteq> StopReturned (Reader r)) es"

fun awaits_audio :: "ra_pc \<Rightarrow> bool" where
  "awaits_audio (RA_AwaitAudio c) = True"
| "awaits_audio pc = False"

definition parked :: "nat \<Rightarrow> ra_pc \<Rightarrow> event list \<Rightarrow> sw \<Rightarrow> bool" where
  "parked r pc t g =
     (r < length (readers g) \<and> ra_pc (readers g ! r) = pc \<and> \<not> awaits_audio pc
      \<and> prefix t (trace g) \<and> quiet r (drop (length t) (trace g)))"

text \<open>
  The bookkeeping of one reader, with respect to the calls made so far: every pending call
  of the reader is in its \<^verbatim>\<open>prefetchQueue\<close> or is the one it awaits (\<open>covered\<close>); outside
  a round of the loop the \<^verbatim>\<open>prefetchQueue\<close> holds at most one promise, and none before
  the loop has started. A state is \<open>tidy\<close> when every call belongs to a reader and every
  reader is in order.
\<close>

definition before_loop :: "ra_pc \<Rightarrow> bool" where
  "before_loop pc = (awaits_stop pc \<or> pc = RA_AwaitSync)"

definition covered :: "call list \<Rightarrow> ra_pc \<Rightarrow> nat list \<Rightarrow> nat \<Rightarrow> bool" where
  "covered cs pc pq r =
     (\<forall>c<length cs. c_owner (cs ! c) = r \<and> c_result (cs ! c) = None \<longrightarrow>
          c \<in> set pq \<or> pc = RA_AwaitAudio c)"

definition rd_ok :: "call list \<Rightarrow> reader \<Rightarrow> nat \<Rightarrow> bool" where
  "rd_ok cs rd r =
     (covered cs (ra_pc rd) (ra_prefetchQueue rd) r
      \<and> length (ra_prefetchQueue rd) \<le> 1
      \<and> (before_loop (ra_pc rd) \<longrightarrow> ra_prefetchQueue rd = []))"

definition tidy :: "sw \<Rightarrow> bool" where
  "tidy g =
     ((\<forall>c<length (calls g). c_owner (calls g ! c) < length (readers g))
      \<and> (\<forall>r<length (readers g). rd_ok (calls g) (readers g ! r) r))"

text \<open>
  \<open>extends r g g'\<close>: from \<open>g\<close> to \<open>g'\<close> only reader \<open>r\<close> has moved, and the calls
  that were added are its own. \<open>inside n r g\<close> describes reader \<open>r\<close> in the middle of a
  round of the loop, with at most \<open>n\<close> promises in its \<^verbatim>\<open>prefetchQueue\<close>, and
  \<open>after n r g\<close> at the suspension that ends the round.
\<close>

definition extends :: "nat \<Rightarrow> sw \<Rightarrow> sw \<Rightarrow> bool" where
  "extends r g g' =
     (length (readers g') = length (readers g)
      \<and> (\<forall>r'<length (readers g). r' \<noteq> r \<longrightarrow> readers g' ! r' = readers g ! r')
      \<and> (\<exists>new. calls g' = calls g @ new \<and> (\<forall>cl\<in>set new. c_owner cl = r)))"

definition inside :: "nat \<Rightarrow> nat \<Rightarrow> sw \<Rightarrow> bool" where
  "inside n r g =
     (r < length (readers g)
      \<and> covered (calls g) (ra_pc (readers g ! r)) (ra_prefetchQueue (readers g ! r)) r
      \<and> length (ra_prefetchQueue (readers g ! r)) \<le> n
      \<and> \<not> awaits_audio (ra_pc (readers g ! r)))"

definition after :: "nat \<Rightarrow> nat \<Rightarrow> sw \<Rightarrow> bool" where
  "after n r g =
     (r < length (readers g)
      \<and> covered (calls g) (ra_pc (readers g ! r)) (ra_prefetchQueue (readers g ! r)) r
      \<and> length (ra_prefetchQueue (readers g ! r)) \<le> n
      \<and> \<not> before_loop (ra_pc (readers g ! r)))"

text \<open>
  The events of a playback, the readers that wait for the answer to a \<^verbatim>\<open>play\<close> message,
  and the states in which every reader has answers for all its \<^verbatim>\<open>play\<close> messages but the
  one it waits on.
\<close>

fun is_play :: "event \<Rightarrow> bool" where
  "is_play (SendPlay r u) = True"
| "is_play (PlayEnded r) = True"
| "is_play (PlayFailed r) = True"
| "is_play e = False"

definition awaiting_play :: "sw \<Rightarrow> bool list" where
  "awaiting_play g = map (\<lambda>rd. ra_pc rd = RA_AwaitPlay) (readers g)"

definition balanced :: "sw \<Rightarrow> bool" where
  "balanced g =
     (\<forall>r. length (filter (play_sent r) (trace g)) =
            length (filter (play_answered r) (trace g))
            + (if r < length (readers g) \<and> ra_pc (readers g ! r) = RA_AwaitPlay then 1 else 0))"

text \<open>
  What a session over three chunks shows of itself: the requests for audio, the \<^verbatim>\<open>play\<close>
  messages sent (a playback begins) and the playbacks that ended. \<open>canon A B C\<close> is the
  order in which a session over the chunks \<open>A\<close>, \<open>B\<close>, \<open>C\<close> produces them when nothing
  fails and nobody stops it.
\<close>

datatype mark = Requested string | Begun | Ended

fun mark_of :: "event \<Rightarrow> mark option" where
  "mark_of (ReqAudio r t) = Some (Requested t)"
| "mark_of (SendPlay r u) = Some Begun"
| "mark_of (PlayEnded r) = Some Ended"
| "mark_of e = None"

definition marks :: "event list \<Rightarrow> mark list" where
  "marks es = List.map_filter mark_of es"

definition canon :: "string \<Rightarrow> string \<Rightarrow> string \<Rightarrow> mark list" where
  "canon A B C = [Requested B, Requested A, Begun, Ended, Requested C, Begun, Ended, Begun, Ended]"

text \<open>
  How far into \<open>canon\<close> the session is when round \<open>k\<close> of the loop has made its
  requests, and when round \<open>k\<close> is about to start. \<open>phase\<close> ties the place where the only
  reader is suspended, its \<^verbatim>\<open>count\<close> and the queue to the marks in the trace;
  \<open>at_drain\<close> and \<open>mid\<close> describe the states at the test of the loop and between its
  requests and its next suspension.
\<close>

fun at_round :: "nat \<Rightarrow> nat" where
  "at_round 0 = 2"
| "at_round (Suc 0) = 5"
| "at_round k = 7"

fun before_round :: "nat \<Rightarrow> nat" where
  "before_round 0 = 0"
| "before_round (Suc 0) = 4"
| "before_round (Suc (Suc 0)) = 7"
| "before_round k = 9"

fun ph :: "mark list \<Rightarrow> string list \<Rightarrow> ra_pc \<Rightarrow> nat \<Rightarrow> string list \<Rightarrow> mark list \<Rightarrow> bool" where
  "ph cn chunks (RA_AwaitStop p) k q m = False"
| "ph cn chunks RA_AwaitSync k q m = (k = 0 \<and> m = [] \<and> (q = [] \<or> q = chunks))"
| "ph cn chunks (RA_AwaitAudio c) k q m =
     (k \<le> 2 \<and> m = take (at_round k) cn \<and> (q = [] \<or> q = drop (Suc k) chunks))"
| "ph cn chunks (RA_AwaitSink u) k q m =
     (k \<le> 2 \<and> m = take (at_round k) cn \<and> (q = [] \<or> q = drop (Suc k) chunks))"
| "ph cn chunks RA_AwaitPlay k q m =
     (k \<le> 2 \<and> m = take (Suc (at_round k)) cn \<and> (q = [] \<or> q = drop (Suc k) chunks))"
| "ph cn chunks (RA_Done x) k q m = prefix m cn"

definition phase :: "string \<Rightarrow> string \<Rightarrow> string \<Rightarrow> sw \<Rightarrow> bool" where
  "phase A B C g =
     (length (readers g) = 1
      \<and> ph (canon A B C) [A, B, C] (ra_pc (readers g ! 0)) (ra_count (readers g ! 0)) (queue g)
           (marks (trace g)))"

definition mid :: "string \<Rightarrow> string \<Rightarrow> string \<Rightarrow> sw \<Rightarrow> bool" where
  "mid A B C g =
     (length (readers g) = 1 \<and> ra_count (readers g ! 0) \<le> 2
      \<and> marks (trace g) = take (at_round (ra_count (readers g ! 0))) (canon A B C)
      \<and> (queue g = [] \<or> queue g = drop (Suc (ra_count (readers g ! 0))) [A, B, C]))"

definition at_drain :: "string \<Rightarrow> string \<Rightarrow> string \<Rightarrow> sw \<Rightarrow> bool" where
  "at_drain A B C g =
     (length (readers g) = 1
      \<and> marks (trace g) = take (before_round (ra_count (readers g ! 0))) (canon A B C)
      \<and> (queue g = [] \<or> queue g = drop (ra_count (readers g ! 0)) [A, B, C]))"

text \<open>The inputs that concern reader \<open>r\<close>, and those a reader suspended at \<open>pc\<close> reacts to.\<close>

fun addressed :: "nat \<Rightarrow> input \<Rightarrow> bool" where
  "addressed r (SyncGot r' e) = (r' = r)"
| "addressed r (SinkReady (Reader r') ok) = (r' = r)"
| "addressed r (Reply (Reader r') ok) = (r' = r)"
| "addressed r i = False"

fun accepts :: "ra_pc \<Rightarrow> input \<Rightarrow> bool" where
  "accepts (RA_AwaitStop ST_AwaitSink) (SinkReady t ok) = True"
| "accepts (RA_AwaitStop ST_AwaitReply) (Reply t ok) = True"
| "accepts RA_AwaitSync (SyncGot r e) = True"
| "accepts (RA_AwaitSink u) (SinkReady t ok) = True"
| "accepts RA_AwaitPlay (Reply t ok) = True"
| "accepts pc i = False"



text \<open>
  The \<open>n\<close>-th call of \<^verbatim>\<open>sendMessageToCurrentTab\<close> holds a \<^verbatim>\<open>setError\<close> event with this
  title and message and still waits for its tabs.
\<close>

definition pending :: "nat \<Rightarrow> string \<Rightarrow> string option \<Rightarrow> sw \<Rightarrow> bool" where
  "pending n title m g = (n < length (tabQueries g) \<and> tabQueries g ! n = Some (title, m))"

subsection \<open>Concrete sessions\<close>

text \<open>
  The text \<^verbatim>\<open>ABC\<close> is read with the chunker \<open>chunk_chars\<close>: the chunks are
  \<^verbatim>\<open>A\<close>, \<^verbatim>\<open>B\<close>, \<^verbatim>\<open>C\<close>. The first round of the loop starts the prefetch of
  \<^verbatim>\<open>B\<close> (call 0) and then asks for \<^verbatim>\<open>A\<close> (call 1).

  \<open>playing_first\<close>: the audio of \<^verbatim>\<open>A\<close> has arrived and its \<^verbatim>\<open>play\<close> message has been
  sent; the request for \<^verbatim>\<open>B\<close> is on the network.
\<close>

definition playing_first :: sw where
  "playing_first =
     run chunk_chars
       [InvokeReadAloud ''ABC'', SyncGot 0 ''OGG_OPUS'', SynSyncGot 0 0 True, SynSyncGot 1 0 True,
        FetchDone 1 0 (FetchOk ''a''), SinkReady (Reader 0) True] init"

text \<open>
  \<open>two_chunks_started\<close>: a text of two chunks, up to the first suspension of the loop.
\<close>

definition two_chunks_started :: sw where
  "two_chunks_started = run chunk_chars [InvokeReadAloud ''AB'', SyncGot 0 ''OGG_OPUS''] init"

text \<open>
  \<open>normal_run\<close>: every synthesis and every playback succeeds, nobody stops the session.
\<close>

definition normal_run :: "input list" where
  "normal_run =
     [InvokeReadAloud ''ABC'', SyncGot 0 ''OGG_OPUS'', SynSyncGot 0 0 True, SynSyncGot 1 0 True,
      FetchDone 1 0 (FetchOk ''a''), SinkReady (Reader 0) True, FetchDone 0 0 (FetchOk ''b''),
      Reply (Reader 0) True, SynSyncGot 2 0 True, FetchDone 2 0 (FetchOk ''c''),
      SinkReady (Reader 0) True, Reply (Reader 0) True, SinkReady (Reader 0) True, Reply (Reader 0) True]"


text \<open>
  \<open>missing_key\<close> and \<open>backend_refuses\<close>: the synthesis of the first chunk of two fails, for
  the missing API key and with an error of the backend.
\<close>

definition missing_key :: "input list" where
  "missing_key =
     [InvokeReadAloud ''AB'', SyncGot 0 ''OGG_OPUS'', SynSyncGot 0 0 False, SynSyncGot 1 0 False]"

definition backend_refuses :: "input list" where
  "backend_refuses =
     [InvokeReadAloud ''AB'', SyncGot 0 ''OGG_OPUS'', SynSyncGot 0 0 True, SynSyncGot 1 0 True,
      FetchDone 1 0 (FetchNotOk (Some ''quota'')), SinkReady (Synth 1 0) True, Reply (Synth 1 0) True]"

section \<open>Lemmas\<close>

lemmas model_defs = init_def emit_def set_pc_def set_sub_def updateContextMenus_def
  createOffscreenDocument_def stopReading_def stopReading_resume_def getAudioUri_def play_def
  audio_settled_def settle_def synth_throw_def synth_return_def synthesize_sync_def
  synthesize_fetched_def synth_stop_resume_def await_audio_def set_prefetchQueue_def drain_def
  readAloud_begin_def readAloud_def readAloud_synced_def readAloud_sink_def readAloud_played_def
  reader_stop_resume_def stopper_resume_def sink_ready_def reply_def

subsection \<open>What each piece of code leaves alone\<close>

lemma emit_frame [simp]:
  "queue (emit es g) = queue g" "playing (emit es g) = playing g"
  "cancellationToken (emit es g) = cancellationToken g" "readers (emit es g) = readers g"
  "stoppers (emit es g) = stoppers g" "calls (emit es g) = calls g"
  "trace (emit es g) = trace g @ es"
  by (simp_all add: emit_def)

lemma sendMessageToCurrentTab_frame [simp]:
  "queue (sendMessageToCurrentTab title m g) = queue g"
  "playing (sendMessageToCurrentTab title m g) = playing g"
  "cancellationToken (sendMessageToCurrentTab title m g) = cancellationToken g"
  "readers (sendMessageToCurrentTab title m g) = readers g"
  "stoppers (sendMessageToCurrentTab title m g) = stoppers g"
  "calls (sendMessageToCurrentTab title m g) = calls g"
  "trace (sendMessageToCurrentTab title m g) = trace g"
  "tabQueries (sendMessageToCurrentTab title m g) = tabQueries g @ [Some (title, m)]"
  by (simp_all add: sendMessageToCurrentTab_def)

lemma tabs_got_frame [simp]:
  "queue (tabs_got n b g) = queue g" "playing (tabs_got n b g) = playing g"
  "cancellationToken (tabs_got n b g) = cancellationToken g"
  "readers (tabs_got n b g) = readers g" "stoppers (tabs_got n b g) = stoppers g"
  "calls (tabs_got n b g) = calls g"
  by (simp_all add: tabs_got_def emit_def split: option.split)

lemma tabs_got_trace:
  "trace (tabs_got n b g) =
     trace g @ (case tabQueries g ! n of
                  None \<Rightarrow> []
                | Some (title, m) \<Rightarrow> [if b then SetError title m else WarnNoTab])"
  by (simp add: tabs_got_def emit_def split: option.split)

lemma set_pc_frame [simp]:
  "queue (set_pc r pc g) = queue g" "playing (set_pc r pc g) = playing g"
  "cancellationToken (set_pc r pc g) = cancellationToken g"
  "stoppers (set_pc r pc g) = stoppers g" "calls (set_pc r pc g) = calls g"
  "trace (set_pc r pc g) = trace g" "length (readers (set_pc r pc g)) = length (readers g)"
  by (simp_all add: set_pc_def)

lemma set_pc_nth [simp]:
  "r' \<noteq> r \<Longrightarrow> readers (set_pc r pc g) ! r' = readers g ! r'"
  "r < length (readers g) \<Longrightarrow> readers (set_pc r pc g) ! r = (readers g ! r)\<lparr>ra_pc := pc\<rparr>"
  by (simp_all add: set_pc_def)

lemma set_prefetchQueue_frame [simp]:
  "queue (set_prefetchQueue r q g) = queue g" "playing (set_prefetchQueue r q g) = playing g"
  "cancellationToken (set_prefetchQueue r q g) = cancellationToken g"
  "stoppers (set_prefetchQueue r q g) = stoppers g" "calls (set_prefetchQueue r q g) = calls g"
  "trace (set_prefetchQueue r q g) = trace g"
  "length (readers (set_prefetchQueue r q g)) = length (readers g)"
  by (simp_all add: set_prefetchQueue_def)

lemma set_prefetchQueue_nth [simp]:
  "r' \<noteq> r \<Longrightarrow> readers (set_prefetchQueue r q g) ! r' = readers g ! r'"
  "r < length (readers g) \<Longrightarrow>
     readers (set_prefetchQueue r q g) ! r = (readers g ! r)\<lparr>ra_prefetchQueue := q\<rparr>"
  by (simp_all add: set_prefetchQueue_def)

lemma set_sub_frame [simp]:
  "queue (set_sub c i pc g) = queue g" "playing (set_sub c i pc g) = playing g"
  "cancellationToken (set_sub c i pc g) = cancellationToken g"
  "stoppers (set_sub c i pc g) = stoppers g" "readers (set_sub c i pc g) = readers g"
  "trace (set_sub c i pc g) = trace g" "length (calls (set_sub c i pc g)) = length (calls g)"
  by (simp_all add: set_sub_def Let_def)

lemma set_sub_other [simp]:
  "c' \<noteq> c \<Longrightarrow> calls (set_sub c i pc g) ! c' = calls g ! c'"
  by (simp add: set_sub_def Let_def)

lemma set_sub_fields [simp]:
  "c_owner (calls (set_sub c i pc g) ! c') = c_owner (calls g ! c')"
  "c_result (calls (set_sub c i pc g) ! c') = c_result (calls g ! c')"
  "c_encoding (calls (set_sub c i pc g) ! c') = c_encoding (calls g ! c')"
proof -
  have "c' = c \<and> c < length (calls g) \<or> calls (set_sub c i pc g) ! c' = calls g ! c'"
    by (cases "c' = c"; cases "c < length (calls g)"; simp add: set_sub_def Let_def list_update_beyond)
  then show "c_owner (calls (set_sub c i pc g) ! c') = c_owner (calls g ! c')"
    "c_result (calls (set_sub c i pc g) ! c') = c_result (calls g ! c')"
    "c_encoding (calls (set_sub c i pc g) ! c') = c_encoding (calls g ! c')"
    by (auto simp: set_sub_def Let_def)
qed

lemma updateContextMenus_frame [simp]:
  "queue (updateContextMenus g) = queue g" "playing (updateContextMenus g) = playing g"
  "cancellationToken (updateContextMenus g) = cancellationToken g"
  "readers (updateContextMenus g) = readers g" "stoppers (updateContextMenus g) = stoppers g"
  "calls (updateContextMenus g) = calls g"
  "trace (updateContextMenus g) = trace g @ [UpdateContextMenus (playing g)]"
  by (simp_all add: updateContextMenus_def)

lemma createOffscreenDocument_frame [simp]:
  "queue (createOffscreenDocument t g) = queue g" "playing (createOffscreenDocument t g) = playing g"
  "cancellationToken (createOffscreenDocument t g) = cancellationToken g"
  "readers (createOffscreenDocument t g) = readers g"
  "stoppers (createOffscreenDocument t g) = stoppers g"
  "calls (createOffscreenDocument t g) = calls g"
  "trace (createOffscreenDocument t g) = trace g @ [AcquireSink t]"
  by (simp_all add: createOffscreenDocument_def)

lemma stopReading_frame [simp]:
  "queue (stopReading t g) = []" "playing (stopReading t g) = False"
  "cancellationToken (stopReading t g) = True" "readers (stopReading t g) = readers g"
  "stoppers (stopReading t g) = stoppers g" "calls (stopReading t g) = calls g"
  "trace (stopReading t g) = trace g @ [UpdateContextMenus False, AcquireSink t]"
  by (simp_all add: stopReading_def)

text \<open>The two results of resuming \<^verbatim>\<open>stopReading\<close>, taken apart.\<close>

lemma stopReading_resume_frame [simp]:
  "queue (fst (stopReading_resume t pc ok g)) = queue g"
  "playing (fst (stopReading_resume t pc ok g)) = playing g"
  "cancellationToken (fst (stopReading_resume t pc ok g)) = cancellationToken g"
  "readers (fst (stopReading_resume t pc ok g)) = readers g"
  "stoppers (fst (stopReading_resume t pc ok g)) = stoppers g"
  "calls (fst (stopReading_resume t pc ok g)) = calls g"
  by (simp_all add: stopReading_resume_def split: stop_pc.split)

lemma stopReading_resume_trace:
  "trace (fst (stopReading_resume t pc ok g)) =
     trace g @ (case (pc, ok) of
                  (ST_AwaitSink, True) \<Rightarrow> [SendStop t]
                | (ST_AwaitReply, True) \<Rightarrow> [StopReturned t]
                | (_, False) \<Rightarrow> [WarnStop t, StopReturned t])"
  by (simp add: stopReading_resume_def split: stop_pc.split)

lemma stopReading_resume_next:
  "snd (stopReading_resume t pc ok g) = (if pc = ST_AwaitSink \<and> ok then Some ST_AwaitReply else None)"
  by (simp add: stopReading_resume_def split: stop_pc.split)

lemma getAudioUri_frame [simp]:
  "queue (getAudioUri chunk r txt e g) = queue g" "playing (getAudioUri chunk r txt e g) = playing g"
  "cancellationToken (getAudioUri chunk r txt e g) = cancellationToken g"
  "readers (getAudioUri chunk r txt e g) = readers g" "stoppers (getAudioUri chunk r txt e g) = stoppers g"
  "trace (getAudioUri chunk r txt e g) = trace g @ [ReqAudio r txt]"
  "length (calls (getAudioUri chunk r txt e g)) = Suc (length (calls g))"
  by (simp_all add: getAudioUri_def Let_def)

lemma play_frame [simp]:
  "queue (play r u g) = queue g" "playing (play r u g) = playing g"
  "cancellationToken (play r u g) = cancellationToken g"
  "stoppers (play r u g) = stoppers g" "calls (play r u g) = calls g"
  "trace (play r u g) = trace g @ [AcquireSink (Reader r)]"
  "length (readers (play r u g)) = length (readers g)"
  by (simp_all add: play_def)

lemma audio_settled_frame [simp]:
  "queue (audio_settled r res g) = queue g" "playing (audio_settled r res g) = playing g"
  "cancellationToken (audio_settled r res g) = cancellationToken g"
  "stoppers (audio_settled r res g) = stoppers g" "calls (audio_settled r res g) = calls g"
  "length (readers (audio_settled r res g)) = length (readers g)"
  by (simp_all add: audio_settled_def split: sum.split)

lemma settle_frame [simp]:
  "queue (settle c res g) = queue g" "playing (settle c res g) = playing g"
  "cancellationToken (settle c res g) = cancellationToken g"
  "stoppers (settle c res g) = stoppers g"
  "length (readers (settle c res g)) = length (readers g)"
  "length (calls (settle c res g)) = length (calls g)"
  by (simp_all add: settle_def Let_def)

lemma synth_throw_frame [simp]:
  "queue (synth_throw c i e g) = queue g" "playing (synth_throw c i e g) = playing g"
  "cancellationToken (synth_throw c i e g) = cancellationToken g"
  "stoppers (synth_throw c i e g) = stoppers g"
  "length (readers (synth_throw c i e g)) = length (readers g)"
  "length (calls (synth_throw c i e g)) = length (calls g)"
  by (simp_all add: synth_throw_def Let_def)

lemma synth_return_frame [simp]:
  "queue (synth_return c i a g) = queue g" "playing (synth_return c i a g) = playing g"
  "cancellationToken (synth_return c i a g) = cancellationToken g"
  "stoppers (synth_return c i a g) = stoppers g"
  "length (readers (synth_return c i a g)) = length (readers g)"
  "length (calls (synth_return c i a g)) = length (calls g)"
  by (simp_all add: synth_return_def Let_def)

lemma synthesize_sync_frame [simp]:
  "queue (synthesize_sync c i k g) = queue g" "playing (synthesize_sync c i k g) = playing g"
  "cancellationToken (synthesize_sync c i k g) = cancellationToken g"
  "stoppers (synthesize_sync c i k g) = stoppers g"
  "length (readers (synthesize_sync c i k g)) = length (readers g)"
  "length (calls (synthesize_sync c i k g)) = length (calls g)"
  by (simp_all add: synthesize_sync_def)

lemma synthesize_fetched_frame [simp]:
  "stoppers (synthesize_fetched c i res g) = stoppers g"
  "length (readers (synthesize_fetched c i res g)) = length (readers g)"
  "length (calls (synthesize_fetched c i res g)) = length (calls g)"
  by (simp_all add: synthesize_fetched_def split: fetch_result.split)

lemma synth_stop_resume_frame [simp]:
  "queue (synth_stop_resume c i pc m ok g) = queue g"
  "playing (synth_stop_resume c i pc m ok g) = playing g"
  "cancellationToken (synth_stop_resume c i pc m ok g) = cancellationToken g"
  "stoppers (synth_stop_resume c i pc m ok g) = stoppers g"
  "length (readers (synth_stop_resume c i pc m ok g)) = length (readers g)"
  "length (calls (synth_stop_resume c i pc m ok g)) = length (calls g)"
  by (simp_all add: synth_stop_resume_def stopReading_resume_def split: stop_pc.split)

lemma await_audio_frame [simp]:
  "queue (await_audio r p g) = queue g" "playing (await_audio r p g) = playing g"
  "cancellationToken (await_audio r p g) = cancellationToken g"
  "stoppers (await_audio r p g) = stoppers g" "calls (await_audio r p g) = calls g"
  "length (readers (await_audio r p g)) = length (readers g)"
  by (simp_all add: await_audio_def split: option.split)

lemma drain_frame [simp]:
  "stoppers (drain chunk r g) = stoppers g"
  "length (readers (drain chunk r g)) = length (readers g)"
  by (simp_all add: drain_def Let_def split: list.split)

lemma readAloud_begin_frame [simp]:
  "cancellationToken (readAloud_begin chunk r g) = cancellationToken g"
  "stoppers (readAloud_begin chunk r g) = stoppers g" "calls (readAloud_begin chunk r g) = calls g"
  "length (readers (readAloud_begin chunk r g)) = length (readers g)"
  "trace (readAloud_begin chunk r g) = trace g @ [UpdateContextMenus True]"
  "playing (readAloud_begin chunk r g) = True"
  "queue (readAloud_begin chunk r g) = queue g @ chunk (ra_text (readers g ! r))"
  by (simp_all add: readAloud_begin_def Let_def)

lemma readAloud_frame [simp]:
  "stoppers (readAloud chunk txt g) = stoppers g" "calls (readAloud chunk txt g) = calls g"
  "length (readers (readAloud chunk txt g)) = Suc (length (readers g))"
  by (simp_all add: readAloud_def Let_def)

lemma readAloud_synced_frame [simp]:
  "stoppers (readAloud_synced chunk r e g) = stoppers g"
  "length (readers (readAloud_synced chunk r e g)) = length (readers g)"
  by (simp_all add: readAloud_synced_def)

lemma readAloud_sink_frame [simp]:
  "queue (readAloud_sink r u ok g) = queue g" "playing (readAloud_sink r u ok g) = playing g"
  "cancellationToken (readAloud_sink r u ok g) = cancellationToken g"
  "stoppers (readAloud_sink r u ok g) = stoppers g" "calls (readAloud_sink r u ok g) = calls g"
  "length (readers (readAloud_sink r u ok g)) = length (readers g)"
  by (simp_all add: readAloud_sink_def)

lemma readAloud_played_frame [simp]:
  "stoppers (readAloud_played chunk r ok g) = stoppers g"
  "length (readers (readAloud_played chunk r ok g)) = length (readers g)"
  by (simp_all add: readAloud_played_def Let_def)

lemma reader_stop_resume_frame [simp]:
  "stoppers (reader_stop_resume chunk r pc ok g) = stoppers g"
  "calls (reader_stop_resume chunk r pc ok g) = calls g"
  "cancellationToken (reader_stop_resume chunk r pc ok g) = cancellationToken g"
  "length (readers (reader_stop_resume chunk r pc ok g)) = length (readers g)"
  by (simp_all add: reader_stop_resume_def stopReading_resume_def split: stop_pc.split)

lemma stopper_resume_frame [simp]:
  "queue (stopper_resume k pc ok g) = queue g" "playing (stopper_resume k pc ok g) = playing g"
  "cancellationToken (stopper_resume k pc ok g) = cancellationToken g"
  "readers (stopper_resume k pc ok g) = readers g" "calls (stopper_resume k pc ok g) = calls g"
  "length (stoppers (stopper_resume k pc ok g)) = length (stoppers g)"
  by (simp_all add: stopper_resume_def stopReading_resume_def split: stop_pc.split)

subsection \<open>The trace only grows\<close>

named_theorems trace_mono

lemma prefix_snoc [trace_mono]: "prefix t xs \<Longrightarrow> prefix t (xs @ es)"
  by (rule prefix_prefix)

lemma tabs_got_mono [trace_mono]:
  "prefix t (trace g) \<Longrightarrow> prefix t (trace (tabs_got n b g))"
  by (simp add: tabs_got_trace trace_mono)

lemma audio_settled_trace [trace_mono]:
  "prefix t (trace g) \<Longrightarrow> prefix t (trace (audio_settled r res g))"
  by (auto simp: audio_settled_def split: sum.split intro: trace_mono)

lemma settle_trace [trace_mono]:
  "prefix t (trace g) \<Longrightarrow> prefix t (trace (settle c res g))"
  by (auto simp: settle_def Let_def intro: trace_mono)

lemma synth_throw_trace [trace_mono]:
  "prefix t (trace g) \<Longrightarrow> prefix t (trace (synth_throw c i e g))"
  by (auto simp: synth_throw_def Let_def intro: trace_mono)

lemma synth_return_trace [trace_mono]:
  "prefix t (trace g) \<Longrightarrow> prefix t (trace (synth_return c i a g))"
  by (auto simp: synth_return_def Let_def intro: trace_mono)

lemma synthesize_sync_trace [trace_mono]:
  "prefix t (trace g) \<Longrightarrow> prefix t (trace (synthesize_sync c i k g))"
  by (auto simp: synthesize_sync_def intro!: trace_mono)

lemma synthesize_fetched_trace [trace_mono]:
  "prefix t (trace g) \<Longrightarrow> prefix t (trace (synthesize_fetched c i res g))"
  by (auto simp: synthesize_fetched_def split: fetch_result.split intro!: trace_mono)

lemma stopReading_resume_mono [trace_mono]:
  "prefix t (trace g) \<Longrightarrow> prefix t (trace (fst (stopReading_resume u pc ok g)))"
  by (auto simp: stopReading_resume_trace intro!: trace_mono)

lemma synth_stop_resume_trace [trace_mono]:
  "prefix t (trace g) \<Longrightarrow> prefix t (trace (synth_stop_resume c i pc m ok g))"
  by (auto simp: synth_stop_resume_def split: prod.split option.split
           dest!: arg_cong [where f = fst] intro!: trace_mono)

lemma await_audio_trace [trace_mono]:
  "prefix t (trace g) \<Longrightarrow> prefix t (trace (await_audio r p g))"
  by (auto simp: await_audio_def split: option.split intro!: trace_mono)

lemma drain_trace [trace_mono]:
  "prefix t (trace g) \<Longrightarrow> prefix t (trace (drain chunk r g))"
  by (auto simp: drain_def Let_def split: list.split intro!: trace_mono)

lemma readAloud_trace [trace_mono]:
  "prefix t (trace g) \<Longrightarrow> prefix t (trace (readAloud chunk txt g))"
  by (auto simp: readAloud_def Let_def intro!: trace_mono)

lemma readAloud_synced_trace [trace_mono]:
  "prefix t (trace g) \<Longrightarrow> prefix t (trace (readAloud_synced chunk r e g))"
  by (auto simp: readAloud_synced_def intro!: trace_mono)

lemma readAloud_sink_trace [trace_mono]:
  "prefix t (trace g) \<Longrightarrow> prefix t (trace (readAloud_sink r u ok g))"
  by (auto simp: readAloud_sink_def intro!: trace_mono)

lemma readAloud_played_trace [trace_mono]:
  "prefix t (trace g) \<Longrightarrow> prefix t (trace (readAloud_played chunk r ok g))"
  by (auto simp: readAloud_played_def Let_def intro!: trace_mono)

lemma reader_stop_resume_trace [trace_mono]:
  "prefix t (trace g) \<Longrightarrow> prefix t (trace (reader_stop_resume chunk r pc ok g))"
  by (auto simp: reader_stop_resume_def split: prod.split option.split
           dest!: arg_cong [where f = fst] intro!: trace_mono)

lemma stopper_resume_trace [trace_mono]:
  "prefix t (trace g) \<Longrightarrow> prefix t (trace (stopper_resume k pc ok g))"
  by (auto simp: stopper_resume_def split: prod.split
           dest!: arg_cong [where f = fst] intro!: trace_mono)

lemma step_trace:
  "prefix t (trace g) \<Longrightarrow> prefix t (trace (step chunk i g))"
  by (cases i)
     (auto simp: sink_ready_def reply_def
           split: tid.split ra_pc.split stop_pc.split syn_pc.split intro!: trace_mono)

lemma run_trace:
  "prefix t (trace g) \<Longrightarrow> prefix t (trace (run chunk ins g))"
  by (induction ins arbitrary: g) (auto intro: step_trace)

lemma trace_news: "trace (run chunk ins g) = trace g @ news g (run chunk ins g)"
  using run_trace [of "trace g" g chunk ins] by (auto simp: news_def prefix_def)

lemma trace_news_step: "trace (step chunk i g) = trace g @ news g (step chunk i g)"
  using step_trace [of "trace g" g chunk i] by (auto simp: news_def prefix_def)

subsection \<open>Once the queue is empty\<close>

lemma drain_empty:
  "queue g = [] \<Longrightarrow>
   drain chunk r g = updateContextMenus (set_pc r (RA_Done RetTrue) (g\<lparr>playing := False\<rparr>))"
  by (simp add: drain_def)

text \<open>No reader inside its initial \<^verbatim>\<open>stopReading\<close>: seen on the program counters alone.\<close>

lemma starting_nth: "starting g = (\<exists>r<length (readers g). awaits_stop (ra_pc (readers g ! r)))"
  by (simp add: starting_def list_ex_length)

lemma starting_pcs: "starting g = list_ex awaits_stop (map ra_pc (readers g))"
  by (simp add: starting_def list_ex_iff)

lemma map_update_same: "(map f xs)[r := f (xs ! r)] = map f xs"
  by (cases "r < length xs") (simp_all add: list_update_beyond nth_map [symmetric] del: nth_map)

lemma starting_set_pc:
  "\<not> starting g \<Longrightarrow> \<not> awaits_stop pc \<Longrightarrow> \<not> starting (set_pc r pc g)"
  by (auto simp: starting_pcs set_pc_def map_update list_ex_iff
           dest!: set_update_subset_insert [THEN subsetD])

lemma starting_other_field:
  "ra_pc (f (readers g ! r)) = ra_pc (readers g ! r) \<Longrightarrow>
   starting (g\<lparr>readers := (readers g)[r := f (readers g ! r)]\<rparr>) = starting g"
  by (simp add: starting_pcs map_update map_update_same)

lemma starting_fields [simp]:
  "starting (g\<lparr>playing := b\<rparr>) = starting g"
  "starting (g\<lparr>queue := q\<rparr>) = starting g"
  "starting (g\<lparr>cancellationToken := b\<rparr>) = starting g"
  "starting (g\<lparr>stoppers := s\<rparr>) = starting g"
  "starting (g\<lparr>calls := cs\<rparr>) = starting g"
  "starting (g\<lparr>tabQueries := tq\<rparr>) = starting g"
  "starting (sendMessageToCurrentTab title m g) = starting g"
  "starting (tabs_got n b g) = starting g"
  "starting (emit es g) = starting g"
  "starting (updateContextMenus g) = starting g"
  "starting (createOffscreenDocument t g) = starting g"
  "starting (stopReading t g) = starting g"
  "starting (set_sub c i sp g) = starting g"
  "starting (getAudioUri chunk r txt e g) = starting g"
  "starting (fst (stopReading_resume t p ok g)) = starting g"
  "starting (stopper_resume k p ok g) = starting g"
  by (simp_all add: starting_pcs)

lemma starting_set_prefetchQueue [simp]:
  "starting (set_prefetchQueue r q g) = starting g"
  unfolding set_prefetchQueue_def
  by (rule starting_other_field [where f = "\<lambda>rd. rd\<lparr>ra_prefetchQueue := q\<rparr>"]) simp

named_theorems not_starting

lemma play_starting [not_starting]: "\<not> starting g \<Longrightarrow> \<not> starting (play r u g)"
  by (simp add: play_def starting_set_pc)

lemma audio_settled_starting [not_starting]:
  "\<not> starting g \<Longrightarrow> \<not> starting (audio_settled r res g)"
  by (simp add: audio_settled_def starting_set_pc not_starting split: sum.split)

lemma settle_starting [not_starting]: "\<not> starting g \<Longrightarrow> \<not> starting (settle c res g)"
  by (simp add: settle_def Let_def not_starting)

lemma synth_throw_starting [not_starting]:
  "\<not> starting g \<Longrightarrow> \<not> starting (synth_throw c i e g)"
  by (simp add: synth_throw_def Let_def not_starting)

lemma synth_return_starting [not_starting]:
  "\<not> starting g \<Longrightarrow> \<not> starting (synth_return c i a g)"
  by (simp add: synth_return_def Let_def not_starting)

lemma synthesize_sync_starting [not_starting]:
  "\<not> starting g \<Longrightarrow> \<not> starting (synthesize_sync c i k g)"
  by (simp add: synthesize_sync_def not_starting)

lemma synthesize_fetched_starting [not_starting]:
  "\<not> starting g \<Longrightarrow> \<not> starting (synthesize_fetched c i res g)"
  by (simp add: synthesize_fetched_def not_starting split: fetch_result.split)

lemma synth_stop_resume_starting [not_starting]:
  "\<not> starting g \<Longrightarrow> \<not> starting (synth_stop_resume c i pc m ok g)"
  by (auto simp: synth_stop_resume_def not_starting split: prod.split option.split
           dest!: arg_cong [where f = fst])

lemma readAloud_sink_starting [not_starting]:
  "\<not> starting g \<Longrightarrow> \<not> starting (readAloud_sink r u ok g)"
  by (simp add: readAloud_sink_def starting_set_pc)

lemma drain_empty_starting [not_starting]:
  "\<not> starting g \<Longrightarrow> queue g = [] \<Longrightarrow> \<not> starting (drain chunk r g)"
  by (simp add: drain_empty starting_set_pc)

lemma starting_eqI:
  "map ra_pc (readers g') = map ra_pc (readers g) \<Longrightarrow> starting g' = starting g"
  by (simp add: starting_pcs)

lemma readAloud_synced_starting [not_starting]:
  assumes "\<not> starting g" "queue g = []"
  shows "\<not> starting (readAloud_synced chunk r e g)"
proof -
  let ?g = "g\<lparr>readers := (readers g)[r := (readers g ! r)\<lparr>ra_encoding := e, ra_prefetchQueue := []\<rparr>],
              cancellationToken := False\<rparr>"
  have "starting ?g = starting g"
    by (rule starting_eqI) (simp add: map_update map_update_same)
  with assms have "\<not> starting (drain chunk r ?g)"
    by (intro drain_empty_starting) simp_all
  then show ?thesis
    by (simp add: readAloud_synced_def)
qed

lemma readAloud_played_starting [not_starting]:
  assumes "\<not> starting g" "queue g = []"
  shows "\<not> starting (readAloud_played chunk r ok g)"
proof (cases ok)
  case True
  let ?g1 = "emit [PlayEnded r] g"
  let ?g = "?g1\<lparr>readers := (readers ?g1)[r := (readers ?g1 ! r)\<lparr>ra_count := Suc (ra_count (readers ?g1 ! r))\<rparr>]\<rparr>"
  have "starting ?g = starting g"
    by (rule starting_eqI) (simp add: map_update map_update_same)
  with assms have "\<not> starting (drain chunk r ?g)"
    by (intro drain_empty_starting) simp_all
  with True show ?thesis
    by (simp add: readAloud_played_def Let_def)
next
  case False
  with assms show ?thesis
    by (simp add: readAloud_played_def starting_set_pc)
qed

text \<open>The requests for audio in a trace, and the pieces of code that add none.\<close>

lemma settle_queue_empty [simp]:
  "queue (synthesize_fetched c i res g) = (case res of FetchNotOk m \<Rightarrow> [] | _ \<Rightarrow> queue g)"
  "playing (synthesize_fetched c i res g) = (case res of FetchNotOk m \<Rightarrow> False | _ \<Rightarrow> playing g)"
  by (simp_all add: synthesize_fetched_def split: fetch_result.split)

lemma reqs_unchanged [simp]:
  "filter is_req (trace (audio_settled r res g)) = filter is_req (trace g)"
  "filter is_req (trace (await_audio r p g)) = filter is_req (trace g)"
  "filter is_req (trace (readAloud_sink r u ok g)) = filter is_req (trace g)"
  "filter is_req (trace (fst (stopReading_resume t pc' ok g))) = filter is_req (trace g)"
  by (simp_all add: audio_settled_def await_audio_def readAloud_sink_def stopReading_resume_def
               split: sum.split option.split stop_pc.split)

lemma reqs_tabs_got [simp]:
  "filter is_req (trace (tabs_got n b g)) = filter is_req (trace g)"
  by (simp add: tabs_got_trace split: option.split)

lemma reqs_settle [simp]:
  "filter is_req (trace (settle c res g)) = filter is_req (trace g)"
  by (simp add: settle_def Let_def)

lemma reqs_synth [simp]:
  "filter is_req (trace (synth_throw c i e g)) = filter is_req (trace g)"
  "filter is_req (trace (synth_return c i a g)) = filter is_req (trace g)"
  by (simp_all add: synth_throw_def synth_return_def Let_def)

lemma reqs_synthesize [simp]:
  "filter is_req (trace (synthesize_sync c i k g)) = filter is_req (trace g)"
  "filter is_req (trace (synthesize_fetched c i fr g)) = filter is_req (trace g)"
  "filter is_req (trace (synth_stop_resume c i pc m ok g)) = filter is_req (trace g)"
  "filter is_req (trace (stopper_resume n pc ok g)) = filter is_req (trace g)"
  by (simp_all add: synthesize_sync_def synthesize_fetched_def synth_stop_resume_def stopper_resume_def
                    stopReading_resume_def
               split: fetch_result.split stop_pc.split)

lemma frozen_drain:
  assumes "queue g = []"
  shows "queue (drain chunk r g) = []" "\<not> playing (drain chunk r g)"
    "filter is_req (trace (drain chunk r g)) = filter is_req (trace g)"
  using assms by (simp_all add: drain_empty)

lemma frozen_step:
  assumes "\<not> is_invoke i" "queue g = []" "\<not> starting g"
  shows "queue (step chunk i g) = [] \<and> \<not> starting (step chunk i g)
     \<and> (\<not> playing g \<longrightarrow> \<not> playing (step chunk i g))
     \<and> filter is_req (trace (step chunk i g)) = filter is_req (trace g)"
proof -
  have ns: "ra_pc (readers g ! r) \<noteq> RA_AwaitStop p" if "r < length (readers g)" for r p
    using assms(3) that by (auto simp: starting_nth)
  show ?thesis
  proof (cases i)
    case (InvokeReadAloud t)
    with assms show ?thesis by simp
  next
    case InvokeStopReading
    with assms show ?thesis by simp
  next
    case (SyncGot r e)
    with assms show ?thesis
      by (simp add: not_starting) (simp add: readAloud_synced_def frozen_drain)
  next
    case (SynSyncGot c j k)
    with assms show ?thesis by (simp add: not_starting)
  next
    case (FetchDone c j res)
    with assms show ?thesis by (simp add: not_starting split: fetch_result.split)
  next
    case (SinkReady t ok)
    with assms show ?thesis
      by (auto simp: sink_ready_def not_starting ns
               split: tid.split ra_pc.split stop_pc.split syn_pc.split)
  next
    case (TabsGot n b)
    with assms show ?thesis by simp
  next
    case (Reply t ok)
    have played: "queue (readAloud_played chunk r ok g) = []"
      "\<not> playing g \<longrightarrow> \<not> playing (readAloud_played chunk r ok g)"
      "filter is_req (trace (readAloud_played chunk r ok g)) = filter is_req (trace g)" for r
      using assms by (simp_all add: readAloud_played_def Let_def frozen_drain)
    from Reply assms show ?thesis
      by (auto simp: reply_def not_starting ns played
               split: tid.split ra_pc.split stop_pc.split syn_pc.split)
  qed
qed

lemma frozen_run:
  assumes "\<forall>i\<in>set ins. \<not> is_invoke i" "queue g = []" "\<not> starting g"
  shows "queue (run chunk ins g) = [] \<and> \<not> starting (run chunk ins g)
     \<and> (\<not> playing g \<longrightarrow> \<not> playing (run chunk ins g))
     \<and> filter is_req (trace (run chunk ins g)) = filter is_req (trace g)"
  using assms
proof (induction ins arbitrary: g)
  case Nil
  then show ?case by simp
next
  case (Cons i ins)
  from Cons.prems have ni: "\<not> is_invoke i" and rest: "\<forall>i\<in>set ins. \<not> is_invoke i"
    by simp_all
  note s = frozen_step [OF ni Cons.prems(2) Cons.prems(3), of chunk]
  from Cons.IH [OF rest, of "step chunk i g"] s show ?case
    by simp
qed

subsection \<open>A top-level stopReading runs to its end\<close>

lemma news_step_run:
  "news g (run chunk ins (step chunk i g)) =
     news g (step chunk i g) @ news (step chunk i g) (run chunk ins (step chunk i g))"
proof -
  have "trace (run chunk ins (step chunk i g)) =
          (trace g @ news g (step chunk i g)) @ news (step chunk i g) (run chunk ins (step chunk i g))"
    using trace_news [of chunk ins "step chunk i g"] trace_news_step [of chunk i g] by simp
  then show ?thesis
    by (simp add: news_def [of g])
qed

lemma stoppers_length_step:
  "k < length (stoppers g) \<Longrightarrow> k < length (stoppers (step chunk i g))"
  by (cases i) (auto simp: sink_ready_def reply_def split: tid.split ra_pc.split stop_pc.split syn_pc.split)

lemma stopper_sends_step:
  assumes "k < length (stoppers g)" "stoppers g ! k = Some ST_AwaitSink"
    and "i \<noteq> SinkReady (Stopper k) False"
  shows "stoppers (step chunk i g) ! k = Some ST_AwaitSink
         \<or> SendStop (Stopper k) \<in> set (news g (step chunk i g))"
proof (cases i)
  case (SinkReady t ok)
  with assms show ?thesis
    by (auto simp: sink_ready_def stopper_resume_def stopReading_resume_def news_def nth_list_update
             split: tid.split ra_pc.split stop_pc.split syn_pc.split)
next
  case (Reply t ok)
  with assms show ?thesis
    by (auto simp: reply_def stopper_resume_def stopReading_resume_def nth_list_update
             split: tid.split ra_pc.split stop_pc.split syn_pc.split)
qed (use assms in \<open>simp_all add: nth_append\<close>)

lemma stopper_sends_run:
  assumes "k < length (stoppers g)" "stoppers g ! k = Some ST_AwaitSink"
    and "SinkReady (Stopper k) False \<notin> set ins"
  shows "stoppers (run chunk ins g) ! k = Some ST_AwaitSink
         \<or> SendStop (Stopper k) \<in> set (news g (run chunk ins g))"
  using assms
proof (induction ins arbitrary: g)
  case Nil
  then show ?case by simp
next
  case (Cons i ins)
  from Cons.prems have i: "i \<noteq> SinkReady (Stopper k) False"
    and ins: "SinkReady (Stopper k) False \<notin> set ins"
    by auto
  have len: "k < length (stoppers (step chunk i g))"
    using Cons.prems(1) by (rule stoppers_length_step)
  from stopper_sends_step [OF Cons.prems(1,2) i, of chunk]
  show ?case
  proof
    assume "stoppers (step chunk i g) ! k = Some ST_AwaitSink"
    from Cons.IH [OF len this ins] show ?thesis
      by (auto simp: news_step_run)
  next
    assume "SendStop (Stopper k) \<in> set (news g (step chunk i g))"
    then show ?thesis
      by (simp add: news_step_run)
  qed
qed

lemma quiet_simps [simp]:
  "quiet r []" "quiet r (e # es) = (\<not> req_of r e \<and> e \<noteq> StopReturned (Reader r) \<and> quiet r es)"
  "quiet r (es @ fs) = (quiet r es \<and> quiet r fs)"
  by (auto simp: quiet_def)

lemma parkedI:
  assumes "parked r pc t g" "length (readers g') \<ge> length (readers g)"
    "readers g' ! r = readers g ! r" "trace g' = trace g @ es" "quiet r es"
  shows "parked r pc t g'"
  using assms by (auto simp: parked_def prefix_def)

named_theorems parked_mono

lemma parked_emit [parked_mono]:
  "parked r pc t g \<Longrightarrow> quiet r es \<Longrightarrow> parked r pc t (emit es g)"
  by (erule parkedI) simp_all

lemma parked_fields [simp]:
  "parked r pc t (g\<lparr>queue := q\<rparr>) = parked r pc t g"
  "parked r pc t (g\<lparr>playing := b\<rparr>) = parked r pc t g"
  "parked r pc t (g\<lparr>cancellationToken := b\<rparr>) = parked r pc t g"
  "parked r pc t (g\<lparr>stoppers := s\<rparr>) = parked r pc t g"
  "parked r pc t (g\<lparr>calls := cs\<rparr>) = parked r pc t g"
  "parked r pc t (g\<lparr>tabQueries := tq\<rparr>) = parked r pc t g"
  "parked r pc t (set_sub c i sp g) = parked r pc t g"
  "parked r pc t (sendMessageToCurrentTab title m g) = parked r pc t g"
  by (simp_all add: parked_def)

lemma parked_tabs_got [parked_mono]:
  "parked r pc t g \<Longrightarrow> parked r pc t (tabs_got n b g)"
  by (simp add: tabs_got_def parked_mono split: option.split)

lemma parked_set_pc [parked_mono]:
  "parked r pc t g \<Longrightarrow> r' \<noteq> r \<Longrightarrow> parked r pc t (set_pc r' pc' g)"
  by (erule parkedI [where es = "[]"]) simp_all

lemma parked_set_prefetchQueue [parked_mono]:
  "parked r pc t g \<Longrightarrow> r' \<noteq> r \<Longrightarrow> parked r pc t (set_prefetchQueue r' q g)"
  by (erule parkedI [where es = "[]"]) simp_all

lemma parked_updateContextMenus [parked_mono]:
  "parked r pc t g \<Longrightarrow> parked r pc t (updateContextMenus g)"
  by (simp add: updateContextMenus_def parked_mono)

lemma parked_createOffscreenDocument [parked_mono]:
  "parked r pc t g \<Longrightarrow> parked r pc t (createOffscreenDocument u g)"
  by (simp add: createOffscreenDocument_def parked_mono)

lemma parked_stopReading [parked_mono]:
  "parked r pc t g \<Longrightarrow> parked r pc t (stopReading u g)"
  by (simp add: stopReading_def parked_mono)

lemma parked_getAudioUri [parked_mono]:
  "parked r pc t g \<Longrightarrow> r' \<noteq> r \<Longrightarrow> parked r pc t (getAudioUri chunk r' txt e g)"
  by (simp add: getAudioUri_def Let_def parked_mono)

lemma parked_play [parked_mono]:
  "parked r pc t g \<Longrightarrow> r' \<noteq> r \<Longrightarrow> parked r pc t (play r' u g)"
  by (simp add: play_def parked_mono)

lemma parked_audio_settled [parked_mono]:
  "parked r pc t g \<Longrightarrow> r' \<noteq> r \<Longrightarrow> parked r pc t (audio_settled r' res g)"
  by (simp add: audio_settled_def parked_mono split: sum.split)

lemma parked_await_audio [parked_mono]:
  "parked r pc t g \<Longrightarrow> r' \<noteq> r \<Longrightarrow> parked r pc t (await_audio r' q g)"
  by (simp add: await_audio_def parked_mono split: option.split)

lemma parked_settle [parked_mono]:
  assumes "parked r pc t g"
  shows "parked r pc t (settle c res g)"
proof -
  let ?g = "g\<lparr>calls := (calls g)[c := (calls g ! c)\<lparr>c_result := Some res\<rparr>]\<rparr>"
  have 1: "parked r pc t ?g"
    using assms by simp
  have "parked r pc t (audio_settled (c_owner (calls g ! c)) res ?g)"
    if "ra_pc (readers g ! c_owner (calls g ! c)) = RA_AwaitAudio c"
    using 1 by (rule parked_audio_settled) (use that assms in \<open>auto simp: parked_def\<close>)
  with 1 show ?thesis
    by (simp add: settle_def Let_def)
qed

lemma parked_synth [parked_mono]:
  "parked r pc t g \<Longrightarrow> parked r pc t (synth_throw c i e g)"
  "parked r pc t g \<Longrightarrow> parked r pc t (synth_return c i a g)"
  by (simp_all add: synth_throw_def synth_return_def Let_def parked_mono)

lemma parked_synthesize [parked_mono]:
  "parked r pc t g \<Longrightarrow> parked r pc t (synthesize_sync c i k g)"
  "parked r pc t g \<Longrightarrow> parked r pc t (synthesize_fetched c i fr g)"
  by (simp_all add: synthesize_sync_def synthesize_fetched_def parked_mono split: fetch_result.split)

lemma parked_synth_stop_resume [parked_mono]:
  "parked r pc t g \<Longrightarrow> parked r pc t (synth_stop_resume c i sp m ok g)"
  by (simp add: synth_stop_resume_def stopReading_resume_def parked_mono split: stop_pc.split)

lemma parked_stopper_resume [parked_mono]:
  "parked r pc t g \<Longrightarrow> parked r pc t (stopper_resume k sp ok g)"
  by (simp add: stopper_resume_def stopReading_resume_def parked_mono split: stop_pc.split)

lemma parked_drain [parked_mono]:
  "parked r pc t g \<Longrightarrow> r' \<noteq> r \<Longrightarrow> parked r pc t (drain chunk r' g)"
  by (simp add: drain_def Let_def parked_mono split: list.split)

lemma parked_readAloud_begin [parked_mono]:
  "parked r pc t g \<Longrightarrow> r' \<noteq> r \<Longrightarrow> parked r pc t (readAloud_begin chunk r' g)"
  by (erule parkedI [where es = "[UpdateContextMenus True]"])
     (simp_all add: readAloud_begin_def Let_def)

lemma parked_readAloud [parked_mono]:
  assumes "parked r pc t g"
  shows "parked r pc t (readAloud chunk txt g)"
proof -
  let ?g = "g\<lparr>readers := readers g @ [\<lparr>ra_pc = RA_AwaitStop ST_AwaitSink, ra_text = txt, ra_count = 0,
                ra_encoding = [], ra_prefetchQueue = []\<rparr>]\<rparr>"
  from assms have "parked r pc t ?g"
    by (rule parkedI [where es = "[]"]) (use assms in \<open>simp_all add: parked_def nth_append\<close>)
  moreover from assms have "length (readers g) \<noteq> r"
    by (simp add: parked_def)
  ultimately show ?thesis
    by (simp add: readAloud_def Let_def parked_mono)
qed

lemma parked_readAloud_synced [parked_mono]:
  assumes "parked r pc t g" "r' \<noteq> r"
  shows "parked r pc t (readAloud_synced chunk r' e g)"
proof -
  let ?g = "g\<lparr>readers := (readers g)[r' := (readers g ! r')\<lparr>ra_encoding := e, ra_prefetchQueue := []\<rparr>],
              cancellationToken := False\<rparr>"
  from assms(1) have "parked r pc t ?g"
    by (rule parkedI [where es = "[]"]) (use assms in simp_all)
  then show ?thesis
    by (simp add: readAloud_synced_def parked_mono assms)
qed

lemma parked_readAloud_sink [parked_mono]:
  "parked r pc t g \<Longrightarrow> r' \<noteq> r \<Longrightarrow> parked r pc t (readAloud_sink r' u ok g)"
  by (simp add: readAloud_sink_def parked_mono)

lemma parked_readAloud_played [parked_mono]:
  assumes "parked r pc t g" "r' \<noteq> r"
  shows "parked r pc t (readAloud_played chunk r' ok g)"
proof -
  let ?g1 = "emit [PlayEnded r'] g"
  let ?g = "?g1\<lparr>readers := (readers ?g1)[r' := (readers ?g1 ! r')\<lparr>ra_count := Suc (ra_count (readers ?g1 ! r'))\<rparr>]\<rparr>"
  from assms(1) have "parked r pc t ?g"
    by (rule parkedI [where es = "[PlayEnded r']"]) (use assms in simp_all)
  then show ?thesis
    by (simp add: readAloud_played_def Let_def parked_mono assms)
qed

lemma parked_reader_stop_resume [parked_mono]:
  "parked r pc t g \<Longrightarrow> r' \<noteq> r \<Longrightarrow> parked r pc t (reader_stop_resume chunk r' sp ok g)"
  by (simp add: reader_stop_resume_def stopReading_resume_def parked_mono split: stop_pc.split)

text \<open>A step that does not concern the reader leaves it where it is.\<close>

lemma parked_step:
  assumes "parked r pc t g" and "\<not> addressed r i"
  shows "parked r pc t (step chunk i g)"
proof (cases i)
  case (SyncGot r' e)
  with assms show ?thesis
    by (auto intro!: parked_mono)
next
  case (SinkReady u ok)
  with assms show ?thesis
    by (auto simp: sink_ready_def intro!: parked_mono
             split: tid.split ra_pc.split stop_pc.split syn_pc.split)
next
  case (Reply u ok)
  with assms show ?thesis
    by (auto simp: reply_def intro!: parked_mono
             split: tid.split ra_pc.split stop_pc.split syn_pc.split)
qed (use assms in \<open>simp_all add: parked_mono\<close>)

text \<open>An input for the reader that does not fit where it is suspended is dropped.\<close>

lemma parked_ignores:
  assumes "r < length (readers g)" and "addressed r i" and "\<not> accepts (ra_pc (readers g ! r)) i"
  shows "step chunk i g = g"
proof (cases i)
  case (SyncGot r' e)
  with assms show ?thesis
    by (cases "ra_pc (readers g ! r)") auto
next
  case (SinkReady u ok)
  with assms show ?thesis
    by (cases u; cases "ra_pc (readers g ! r)")
       (auto simp: sink_ready_def split: stop_pc.splits)
next
  case (Reply u ok)
  with assms show ?thesis
    by (cases u; cases "ra_pc (readers g ! r)")
       (auto simp: reply_def split: stop_pc.splits)
qed (use assms in simp_all)

lemma preceded_none: "\<forall>e\<in>set xs. \<not> Q e \<Longrightarrow> preceded P Q xs"
  by (induction xs) auto

lemma preceded_found:
  "\<forall>e\<in>set xs. \<not> Q e \<Longrightarrow> \<exists>e\<in>set xs. P e \<Longrightarrow> preceded P Q (xs @ ys)"
  by (induction xs) auto

lemma quiet_no_req: "quiet r es \<Longrightarrow> \<forall>e\<in>set es. \<not> req_of r e"
  and quiet_no_ret: "quiet r es \<Longrightarrow> \<forall>e\<in>set es. \<not> e = StopReturned (Reader r)"
  by (auto simp: quiet_def list_all_iff)

lemma drop_prefix_mono:
  "prefix t (trace g) \<Longrightarrow> prefix (trace g) (trace g') \<Longrightarrow>
   drop (length t) (trace g') = drop (length t) (trace g) @ drop (length (trace g)) (trace g')"
  by (auto simp: prefix_def)

text \<open>The reader's own \<^verbatim>\<open>stopReading\<close> moves from line 164 to line 165.\<close>

lemma parked_sent:
  assumes "parked r (RA_AwaitStop ST_AwaitSink) t g"
  shows "parked r (RA_AwaitStop ST_AwaitReply) t (step chunk (SinkReady (Reader r) True) g)"
    and "SendStop (Reader r) \<in> set (drop (length t) (trace (step chunk (SinkReady (Reader r) True) g)))"
  using assms
  by (auto simp: parked_def sink_ready_def reader_stop_resume_def stopReading_resume_def prefix_def)

text \<open>The reader's own \<^verbatim>\<open>stopReading\<close> returns, and \<^verbatim>\<open>readAloud\<close> goes on to line 81.\<close>

lemma parked_returns:
  assumes "parked r (RA_AwaitStop p) t g"
    and "p = ST_AwaitSink \<and> i = SinkReady (Reader r) False \<or> p = ST_AwaitReply \<and> i = Reply (Reader r) ok"
  shows "\<exists>es. trace (step chunk i g) = trace g @ es \<and> (\<forall>e\<in>set es. \<not> req_of r e)
              \<and> StopReturned (Reader r) \<in> set es"
  using assms
  by (auto simp: parked_def sink_ready_def reply_def reader_stop_resume_def stopReading_resume_def)

lemma own_input_cases:
  assumes "addressed r i" "accepts (RA_AwaitStop p) i"
  shows "p = ST_AwaitSink \<and> (\<exists>ok. i = SinkReady (Reader r) ok)
       \<or> p = ST_AwaitReply \<and> (\<exists>ok. i = Reply (Reader r) ok)"
  using assms by (cases "(r, i)" rule: addressed.cases; cases p) auto

lemma parked_run:
  assumes "parked r (RA_AwaitStop p) t g"
    and "p = ST_AwaitReply \<longrightarrow> SendStop (Reader r) \<in> set (drop (length t) (trace g))"
  shows "preceded ((=) (StopReturned (Reader r))) (req_of r) (drop (length t) (trace (run chunk ins g)))
       \<and> (SinkReady (Reader r) False \<notin> set ins \<longrightarrow>
            preceded ((=) (SendStop (Reader r))) ((=) (StopReturned (Reader r)))
              (drop (length t) (trace (run chunk ins g))))"
  using assms
proof (induction ins arbitrary: g p)
  case Nil
  then have "quiet r (drop (length t) (trace g))"
    by (simp add: parked_def)
  then show ?case
    by (auto intro!: preceded_none dest: quiet_no_req quiet_no_ret)
next
  case (Cons i ins)
  let ?g = "step chunk i g"
  let ?E = "drop (length t) (trace g)"
  have pre: "prefix t (trace g)" and q: "quiet r ?E"
    using Cons.prems(1) by (simp_all add: parked_def)
  have grow: "drop (length t) (trace ?g) = ?E @ drop (length (trace g)) (trace ?g)"
    using pre by (intro drop_prefix_mono step_trace) simp_all
  have r: "r < length (readers g)" and pc: "ra_pc (readers g ! r) = RA_AwaitStop p"
    using Cons.prems(1) by (simp_all add: parked_def)
  consider (other) "\<not> addressed r i"
    | (ignored) "addressed r i" "\<not> accepts (RA_AwaitStop p) i"
    | (sent) "p = ST_AwaitSink" "i = SinkReady (Reader r) True"
    | (failed) "p = ST_AwaitSink" "i = SinkReady (Reader r) False"
    | (answered) ok where "p = ST_AwaitReply" "i = Reply (Reader r) ok"
    using own_input_cases [of r i p] by (cases "addressed r i"; cases "accepts (RA_AwaitStop p) i") auto
  then show ?case
  proof cases
    case other
    have "parked r (RA_AwaitStop p) t ?g"
      using Cons.prems(1) other by (rule parked_step)
    moreover have "p = ST_AwaitReply \<longrightarrow> SendStop (Reader r) \<in> set (drop (length t) (trace ?g))"
      using Cons.prems(2) grow by simp
    ultimately show ?thesis
      using Cons.IH [of p ?g] other by (cases "(r, i)" rule: addressed.cases) auto
  next
    case sent
    from parked_sent [where r = r and t = t and g = g and chunk = chunk] Cons.prems(1) sent
      Cons.IH [of ST_AwaitReply ?g]
    show ?thesis by auto
  next
    case failed
    from parked_returns [OF Cons.prems(1), where i = i and chunk = chunk] failed
    obtain es where es: "trace ?g = trace g @ es" "\<forall>e\<in>set es. \<not> req_of r e"
      "StopReturned (Reader r) \<in> set es"
      by blast
    have "trace (run chunk ins ?g) = trace g @ es @ news ?g (run chunk ins ?g)"
      using trace_news [of chunk ins ?g] es(1) by simp
    then have "drop (length t) (trace (run chunk ins ?g)) = (?E @ es) @ news ?g (run chunk ins ?g)"
      using pre by (auto simp: prefix_def)
    moreover have "preceded ((=) (StopReturned (Reader r))) (req_of r) ((?E @ es) @ news ?g (run chunk ins ?g))"
      using q es by (intro preceded_found) (auto dest: quiet_no_req)
    ultimately show ?thesis
      using failed by simp
  next
    case answered
    from parked_returns [OF Cons.prems(1), where i = i and chunk = chunk and ok = ok] answered
    obtain es where es: "trace ?g = trace g @ es" "\<forall>e\<in>set es. \<not> req_of r e"
      "StopReturned (Reader r) \<in> set es"
      by blast
    have "trace (run chunk ins ?g) = trace g @ es @ news ?g (run chunk ins ?g)"
      using trace_news [of chunk ins ?g] es(1) by simp
    then have split: "drop (length t) (trace (run chunk ins ?g)) = (?E @ es) @ news ?g (run chunk ins ?g)"
      "drop (length t) (trace (run chunk ins ?g)) = ?E @ (es @ news ?g (run chunk ins ?g))"
      using pre by (auto simp: prefix_def)
    have 1: "preceded ((=) (StopReturned (Reader r))) (req_of r) ((?E @ es) @ news ?g (run chunk ins ?g))"
      using q es by (intro preceded_found) (auto dest: quiet_no_req)
    have 2: "preceded ((=) (SendStop (Reader r))) ((=) (StopReturned (Reader r)))
               (?E @ (es @ news ?g (run chunk ins ?g)))"
      using q Cons.prems(2) answered by (intro preceded_found) (auto dest: quiet_no_ret)
    from 1 2 show ?thesis
      by (simp only: run.simps split)  simp
  next
    case ignored
    have "\<not> accepts (ra_pc (readers g ! r)) i"
      unfolding pc by (rule ignored(2))
    with r ignored(1) have "?g = g"
      by (rule parked_ignores)
    with Cons.IH [OF Cons.prems] ignored show ?thesis
      by (cases "(r, i)" rule: addressed.cases) auto
  qed
qed

lemma run_append: "run chunk (xs @ ys) g = run chunk ys (run chunk xs g)"
  by (induction xs arbitrary: g) simp_all








subsection \<open>The offscreen document is created once\<close>








subsection \<open>Messages to the current tab\<close>

text \<open>Only \<^verbatim>\<open>sendMessageToCurrentTab\<close> and the answer to its query touch the pending queries.\<close>

lemma tabQueries_frame [simp]:
  "tabQueries (emit es g) = tabQueries g"
  "tabQueries (set_pc r pc g) = tabQueries g"
  "tabQueries (set_prefetchQueue r q g) = tabQueries g"
  "tabQueries (set_sub c i sp g) = tabQueries g"
  "tabQueries (updateContextMenus g) = tabQueries g"
  "tabQueries (createOffscreenDocument t g) = tabQueries g"
  "tabQueries (stopReading t g) = tabQueries g"
  "tabQueries (fst (stopReading_resume t p ok g)) = tabQueries g"
  "tabQueries (getAudioUri chunk r txt e g) = tabQueries g"
  "tabQueries (play r u g) = tabQueries g"
  "tabQueries (readAloud_sink r u ok g) = tabQueries g"
  "tabQueries (stopper_resume k p ok g) = tabQueries g"
  by (simp_all add: emit_def set_pc_def set_prefetchQueue_def set_sub_def Let_def
        updateContextMenus_def createOffscreenDocument_def stopReading_def stopReading_resume_def
        getAudioUri_def play_def readAloud_sink_def stopper_resume_def
      split: stop_pc.split)

lemma tabQueries_audio [simp]:
  "tabQueries (audio_settled r res g) = tabQueries g"
  "tabQueries (await_audio r p g) = tabQueries g"
  by (simp_all add: audio_settled_def await_audio_def split: sum.split option.split)

lemma tabQueries_settle [simp]:
  "tabQueries (settle c res g) = tabQueries g"
  by (simp add: settle_def Let_def)

lemma tabQueries_synth [simp]:
  "tabQueries (synth_throw c i e g) = tabQueries g"
  "tabQueries (synth_return c i a g) = tabQueries g"
  by (simp_all add: synth_throw_def synth_return_def Let_def)

lemma tabQueries_synth_stop_resume [simp]:
  "tabQueries (synth_stop_resume c i p m ok g) = tabQueries g"
  by (simp add: synth_stop_resume_def stopReading_resume_def split: stop_pc.split)

lemma tabQueries_drain [simp]:
  "tabQueries (drain chunk r g) = tabQueries g"
  by (simp add: drain_def Let_def split: list.split)

lemma tabQueries_readAloud [simp]:
  "tabQueries (readAloud_begin chunk r g) = tabQueries g"
  "tabQueries (readAloud chunk txt g) = tabQueries g"
  "tabQueries (readAloud_synced chunk r e g) = tabQueries g"
  "tabQueries (readAloud_played chunk r ok g) = tabQueries g"
  "tabQueries (reader_stop_resume chunk r p ok g) = tabQueries g"
  by (simp_all add: readAloud_begin_def readAloud_def readAloud_synced_def readAloud_played_def
        reader_stop_resume_def stopReading_resume_def Let_def
      split: stop_pc.split)



lemma pending_same:
  "pending n title m g \<Longrightarrow> tabQueries g' = tabQueries g \<Longrightarrow> pending n title m g'"
  by (simp add: pending_def)





lemma playing_first_eq:
  "playing_first =
     \<lparr>queue = [''B'', ''C''], playing = True, cancellationToken = False,
      readers = [\<lparr>ra_pc = RA_AwaitPlay, ra_text = ''ABC'', ra_count = 0, ra_encoding = ''OGG_OPUS'',
                  ra_prefetchQueue = [0]\<rparr>],
      stoppers = [],
      calls = [\<lparr>c_owner = 0, c_encoding = ''OGG_OPUS'', c_subs = [(''B'', SY_AwaitFetch)], c_result = None\<rparr>,
               \<lparr>c_owner = 0, c_encoding = ''OGG_OPUS'', c_subs = [(''A'', SY_Returned ''a'')],
                c_result = Some (Inr (DataUri ''OGG_OPUS'' [''a'']))\<rparr>],
      tabQueries = [],
      trace = [UpdateContextMenus True, ReqAudio 0 ''B'', ReqAudio 0 ''A'', Fetch 0 0 ''B'', Fetch 1 0 ''A'',
               Analytics 1, AcquireSink (Reader 0), SendPlay 0 (Some (DataUri ''OGG_OPUS'' [''a'']))]\<rparr>"
  by (simp add: playing_first_def model_defs chunk_chars_def Let_def)

subsection \<open>The calls a reader has pending\<close>

lemma tidy_cong:
  "calls g' = calls g \<Longrightarrow> readers g' = readers g \<Longrightarrow> tidy g' = tidy g"
  by (simp add: tidy_def)

lemma tidy_fields [simp]:
  "tidy (g\<lparr>queue := q\<rparr>) = tidy g"
  "tidy (g\<lparr>playing := b\<rparr>) = tidy g"
  "tidy (g\<lparr>cancellationToken := b\<rparr>) = tidy g"
  "tidy (g\<lparr>stoppers := s\<rparr>) = tidy g"
  "tidy (g\<lparr>trace := t\<rparr>) = tidy g"
  "tidy (g\<lparr>tabQueries := tq\<rparr>) = tidy g"
  "tidy (sendMessageToCurrentTab title m g) = tidy g"
  "tidy (tabs_got n b g) = tidy g"
  "tidy (emit es g) = tidy g"
  "tidy (updateContextMenus g) = tidy g"
  "tidy (createOffscreenDocument u g) = tidy g"
  "tidy (stopReading u g) = tidy g"
  "tidy (stopper_resume k p ok g) = tidy g"
  "tidy (fst (stopReading_resume u p ok g)) = tidy g"
  by (rule tidy_cong; simp)+

lemma update_keeps:
  assumes "\<And>x. f (h x) = f x"
  shows "f (xs[c := h (xs ! c)] ! c') = f (xs ! c')"
  by (cases "c' = c"; cases "c < length xs"; simp add: assms list_update_beyond)

lemma rd_ok_subs:
  "rd_ok (cs[c := (cs ! c)\<lparr>c_subs := s\<rparr>]) rd r = rd_ok cs rd r"
proof -
  have "c_owner (cs[c := (cs ! c)\<lparr>c_subs := s\<rparr>] ! c') = c_owner (cs ! c')" for c'
    by (rule update_keeps [where h = "\<lambda>x. x\<lparr>c_subs := s\<rparr>"]) simp
  moreover have "c_result (cs[c := (cs ! c)\<lparr>c_subs := s\<rparr>] ! c') = c_result (cs ! c')" for c'
    by (rule update_keeps [where h = "\<lambda>x. x\<lparr>c_subs := s\<rparr>"]) simp
  ultimately show ?thesis
    by (simp add: rd_ok_def covered_def)
qed

lemma tidy_set_sub [simp]: "tidy (set_sub c i sp g) = tidy g"
proof -
  have "c_owner (calls (set_sub c i sp g) ! c') = c_owner (calls g ! c')" for c'
    by simp
  then show ?thesis
    by (simp add: tidy_def) (simp add: set_sub_def Let_def rd_ok_subs)
qed

lemma tidy_readers_update:
  assumes "tidy g" and "r < length (readers g) \<Longrightarrow> rd_ok (calls g) rd r"
  shows "tidy (g\<lparr>readers := (readers g)[r := rd]\<rparr>)"
  using assms
  by (cases "r < length (readers g)") (auto simp: tidy_def nth_list_update list_update_beyond)

lemma rd_ok_set_pc:
  assumes "rd_ok cs rd r" "\<not> awaits_audio (ra_pc rd)" "\<not> awaits_audio pc"
    and "before_loop pc \<longrightarrow> before_loop (ra_pc rd)"
  shows "rd_ok cs (rd\<lparr>ra_pc := pc\<rparr>) r"
proof -
  have "ra_pc rd \<noteq> RA_AwaitAudio c" for c
    using assms(2) by auto
  with assms show ?thesis
    by (auto simp: rd_ok_def covered_def)
qed

named_theorems tidy_mono

text \<open>Moving a reader between two points that are not the wait for audio.\<close>

lemma tidy_set_pc [tidy_mono]:
  assumes "tidy g" "\<not> awaits_audio (ra_pc (readers g ! r))" "\<not> awaits_audio pc"
    and "before_loop pc \<longrightarrow> before_loop (ra_pc (readers g ! r))"
  shows "tidy (set_pc r pc g)"
  unfolding set_pc_def
  using assms by (intro tidy_readers_update rd_ok_set_pc) (auto simp: tidy_def)

text \<open>A call settles, and the reader that awaited it moves on.\<close>

lemma rd_ok_settled:
  assumes "rd_ok cs rd r"
  shows "rd_ok (cs[c := (cs ! c)\<lparr>c_result := Some res\<rparr>]) rd r"
    and "ra_pc rd = RA_AwaitAudio c \<Longrightarrow> \<not> awaits_audio pc \<Longrightarrow> \<not> before_loop pc \<Longrightarrow>
         rd_ok (cs[c := (cs ! c)\<lparr>c_result := Some res\<rparr>]) (rd\<lparr>ra_pc := pc\<rparr>) r"
proof -
  have f: "c_owner (cs[c := (cs ! c)\<lparr>c_result := Some res\<rparr>] ! c') = c_owner (cs ! c')" for c'
    by (rule update_keeps [where h = "\<lambda>x. x\<lparr>c_result := Some res\<rparr>"]) simp
  have g: "c_result (cs[c := (cs ! c)\<lparr>c_result := Some res\<rparr>] ! c') = None \<Longrightarrow>
           c' < length cs \<Longrightarrow> c' \<noteq> c \<and> c_result (cs ! c') = None" for c'
    by (cases "c' = c"; simp)
  show "rd_ok (cs[c := (cs ! c)\<lparr>c_result := Some res\<rparr>]) rd r"
    using assms by (auto simp: rd_ok_def covered_def f dest: g)
  show "rd_ok (cs[c := (cs ! c)\<lparr>c_result := Some res\<rparr>]) (rd\<lparr>ra_pc := pc\<rparr>) r"
    if "ra_pc rd = RA_AwaitAudio c" "\<not> awaits_audio pc" "\<not> before_loop pc"
    using assms that by (auto simp: rd_ok_def covered_def f dest!: g)
qed

lemma tidy_settle [tidy_mono]:
  assumes "tidy g"
  shows "tidy (settle c res g)"
proof -
  let ?cs = "(calls g)[c := (calls g ! c)\<lparr>c_result := Some res\<rparr>]"
  let ?r = "c_owner (calls g ! c)"
  have own: "c_owner (?cs ! c') = c_owner (calls g ! c')" for c'
    by (rule update_keeps [where h = "\<lambda>x. x\<lparr>c_result := Some res\<rparr>"]) simp
  have 1: "tidy (g\<lparr>calls := ?cs\<rparr>)"
    using assms by (auto simp: tidy_def own intro: rd_ok_settled(1))
  have 2: "tidy (g\<lparr>calls := ?cs, readers := (readers g)[?r := (readers g ! ?r)\<lparr>ra_pc := pc\<rparr>]\<rparr>)"
    if "?r < length (readers g)" "ra_pc (readers g ! ?r) = RA_AwaitAudio c"
      "\<not> awaits_audio pc" "\<not> before_loop pc" for pc
    using tidy_readers_update [OF 1, of ?r "(readers g ! ?r)\<lparr>ra_pc := pc\<rparr>"] assms that
    by (auto simp: tidy_def intro: rd_ok_settled(2))
  show ?thesis
    using 1 2 [of "RA_Done (Threw e)" for e] 2 [of "RA_AwaitSink u" for u]
    by (auto simp: settle_def Let_def audio_settled_def play_def set_pc_def createOffscreenDocument_def
                   emit_def before_loop_def
             split: sum.split)
qed

lemma tidy_synth [tidy_mono]:
  "tidy g \<Longrightarrow> tidy (synth_throw c i e g)"
  "tidy g \<Longrightarrow> tidy (synth_return c i a g)"
  by (simp_all add: synth_throw_def synth_return_def Let_def tidy_mono)

lemma tidy_synthesize [tidy_mono]:
  "tidy g \<Longrightarrow> tidy (synthesize_sync c i k g)"
  "tidy g \<Longrightarrow> tidy (synthesize_fetched c i fr g)"
  "tidy g \<Longrightarrow> tidy (synth_stop_resume c i sp m ok g)"
  by (simp_all add: synthesize_sync_def synthesize_fetched_def synth_stop_resume_def tidy_mono
                    stopReading_resume_def
               split: fetch_result.split stop_pc.split)

text \<open>Steps of one reader leave the others alone.\<close>

named_theorems ext

lemma extends_refl [ext]: "extends r g g"
  by (simp add: extends_def)

lemma extends_fields [simp]:
  "extends r g (g'\<lparr>queue := q\<rparr>) = extends r g g'"
  "extends r g (g'\<lparr>playing := b\<rparr>) = extends r g g'"
  "extends r g (g'\<lparr>cancellationToken := b\<rparr>) = extends r g g'"
  "extends r g (emit es g') = extends r g g'"
  "extends r g (updateContextMenus g') = extends r g g'"
  "extends r g (createOffscreenDocument u g') = extends r g g'"
  by (simp_all add: extends_def)

lemma extends_set_pc [ext]: "extends r g g' \<Longrightarrow> extends r g (set_pc r pc g')"
  by (auto simp: extends_def)

lemma extends_set_prefetchQueue [ext]: "extends r g g' \<Longrightarrow> extends r g (set_prefetchQueue r q g')"
  by (auto simp: extends_def)

lemma extends_getAudioUri [ext]: "extends r g g' \<Longrightarrow> extends r g (getAudioUri chunk r t e g')"
  by (auto simp: extends_def getAudioUri_def Let_def emit_def)

lemma extends_play [ext]: "extends r g g' \<Longrightarrow> extends r g (play r u g')"
  by (simp add: play_def ext)

lemma extends_audio_settled [ext]: "extends r g g' \<Longrightarrow> extends r g (audio_settled r res g')"
  by (simp add: audio_settled_def ext split: sum.split)

lemma extends_await_audio [ext]: "extends r g g' \<Longrightarrow> extends r g (await_audio r p g')"
  by (simp add: await_audio_def ext split: option.split)

lemma extends_drain: "extends r g (drain chunk r g)"
  by (simp add: drain_def Let_def ext split: list.split)

lemma rd_ok_append_other:
  assumes "rd_ok cs rd r'" "\<forall>cl\<in>set new. c_owner cl = r" "r' \<noteq> r"
  shows "rd_ok (cs @ new) rd r'"
proof -
  have "c < length cs" if "c < length (cs @ new)" "c_owner ((cs @ new) ! c) = r'" for c
  proof (rule ccontr)
    assume "\<not> c < length cs"
    with that(1) have "(cs @ new) ! c \<in> set new"
      by (simp add: nth_append)
    with assms(2,3) that(2) show False
      by auto
  qed
  with assms(1) show ?thesis
    by (fastforce simp: rd_ok_def covered_def nth_append)
qed

lemma tidy_extends:
  assumes "tidy g" "extends r g g'" "r < length (readers g)" "rd_ok (calls g') (readers g' ! r) r"
  shows "tidy g'"
proof -
  from assms(2) obtain new where new: "calls g' = calls g @ new" "\<forall>cl\<in>set new. c_owner cl = r"
    and len: "length (readers g') = length (readers g)"
    and oth: "\<And>r'. r' < length (readers g) \<Longrightarrow> r' \<noteq> r \<Longrightarrow> readers g' ! r' = readers g ! r'"
    by (auto simp: extends_def)
  have own: "c_owner (calls g' ! c) < length (readers g')" if "c < length (calls g')" for c
  proof (cases "c < length (calls g)")
    case True
    with assms(1) show ?thesis
      by (simp add: new len nth_append tidy_def)
  next
    case False
    with that have "calls g' ! c \<in> set new"
      by (simp add: new nth_append)
    with new(2) assms(3) show ?thesis
      by (auto simp: len)
  qed
  have rd: "rd_ok (calls g') (readers g' ! r') r'" if "r' < length (readers g')" for r'
  proof (cases "r' = r")
    case True
    with assms(4) show ?thesis by simp
  next
    case False
    from that have r': "r' < length (readers g)"
      by (simp add: len)
    with assms(1) have "rd_ok (calls g) (readers g ! r') r'"
      by (simp add: tidy_def)
    then have "rd_ok (calls g @ new) (readers g ! r') r'"
      using new(2) False by (rule rd_ok_append_other)
    then show ?thesis
      by (simp add: new oth [OF r' False])
  qed
  from own rd show ?thesis
    by (simp add: tidy_def)
qed

text \<open>One round of the loop, stage by stage.\<close>

lemma inside_fields [simp]:
  "inside n r (g\<lparr>queue := q\<rparr>) = inside n r g"
  "inside n r (g\<lparr>playing := b\<rparr>) = inside n r g"
  "inside n r (g\<lparr>cancellationToken := b\<rparr>) = inside n r g"
  by (simp_all add: inside_def)

lemma after_fields [simp]:
  "after n r (emit es g) = after n r g"
  "after n r (updateContextMenus g) = after n r g"
  "after n r (createOffscreenDocument u g) = after n r g"
  by (simp_all add: after_def)

lemma covered_pc: "covered cs pc pq r \<Longrightarrow> \<not> awaits_audio pc \<Longrightarrow> covered cs pc' pq r"
  by (cases pc) (auto simp: covered_def)

lemma inside_set_pc:
  "inside n r g \<Longrightarrow> \<not> before_loop pc \<Longrightarrow> after n r (set_pc r pc g)"
  by (auto simp: inside_def after_def elim: covered_pc)

lemma inside_play: "inside n r g \<Longrightarrow> after n r (play r u g)"
  by (simp add: play_def inside_set_pc before_loop_def)

lemma inside_audio_settled: "inside n r g \<Longrightarrow> after n r (audio_settled r res g)"
  by (simp add: audio_settled_def inside_play inside_set_pc before_loop_def split: sum.split)

lemma inside_prefetch:
  assumes "inside n r g"
  shows "inside (Suc n) r
           (set_prefetchQueue r (ra_prefetchQueue (readers g ! r) @ [length (calls g)])
              (getAudioUri chunk r t e g))"
  using assms
  by (auto simp: inside_def covered_def getAudioUri_def Let_def emit_def set_prefetchQueue_def
                 nth_append less_Suc_eq)

text \<open>The awaited call is covered as if it were the head of the prefetch queue.\<close>

lemma await_audio_after:
  assumes "r < length (readers g)" "\<not> awaits_audio (ra_pc (readers g ! r))"
    and "covered (calls g) (ra_pc (readers g ! r)) (c # ra_prefetchQueue (readers g ! r)) r"
    and "length (ra_prefetchQueue (readers g ! r)) \<le> n"
  shows "after n r (await_audio r (Some c) g)"
proof (cases "c_result (calls g ! c)")
  case None
  from assms have "covered (calls g) (RA_AwaitAudio c) (ra_prefetchQueue (readers g ! r)) r"
    by (auto simp: covered_def)
  with assms None show ?thesis
    by (simp add: await_audio_def after_def before_loop_def)
next
  case (Some res)
  from assms Some have "covered (calls g) (ra_pc (readers g ! r)) (ra_prefetchQueue (readers g ! r)) r"
    by (auto simp: covered_def)
  with assms have "inside n r g"
    by (simp add: inside_def)
  with Some show ?thesis
    by (simp add: await_audio_def inside_audio_settled)
qed

lemma inside_current:
  assumes "inside n r g"
  shows "after n r (await_audio r (Some (length (calls g))) (getAudioUri chunk r t e g))"
proof (rule await_audio_after)
  let ?g = "getAudioUri chunk r t e g"
  show "r < length (readers ?g)" "\<not> awaits_audio (ra_pc (readers ?g ! r))"
    "length (ra_prefetchQueue (readers ?g ! r)) \<le> n"
    using assms by (simp_all add: inside_def)
  show "covered (calls ?g) (ra_pc (readers ?g ! r)) (length (calls g) # ra_prefetchQueue (readers ?g ! r)) r"
    using assms
    by (auto simp: inside_def covered_def getAudioUri_def Let_def emit_def nth_append less_Suc_eq)
qed

lemma inside_shift:
  assumes "inside (Suc n) r g"
  shows "after n r
           (case ra_prefetchQueue (readers g ! r) of
              [] \<Rightarrow> await_audio r None g
            | c # cs \<Rightarrow> await_audio r (Some c) (set_prefetchQueue r cs g))"
proof (cases "ra_prefetchQueue (readers g ! r)")
  case Nil
  with assms have "inside n r g"
    by (simp add: inside_def)
  with Nil show ?thesis
    by (simp add: await_audio_def inside_play)
next
  case (Cons c cs)
  have "after n r (await_audio r (Some c) (set_prefetchQueue r cs g))"
    by (rule await_audio_after) (use assms Cons in \<open>simp_all add: inside_def\<close>)
  with Cons show ?thesis
    by simp
qed

lemma drain_after:
  assumes "inside 1 r g"
    and "ra_count (readers g ! r) = 0 \<longrightarrow> ra_prefetchQueue (readers g ! r) = []"
  shows "after 1 r (drain chunk r g)"
proof (cases "queue g")
  case Nil
  with assms(1) show ?thesis
    by (simp add: drain_def inside_set_pc before_loop_def)
next
  case (Cons tx rest)
  show ?thesis
  proof (cases "cancellationToken g")
    case True
    with Cons assms(1) show ?thesis
      by (simp add: drain_def inside_set_pc before_loop_def)
  next
    case False
    define e where "e = ra_encoding (readers g ! r)"
    define g1 where "g1 = g\<lparr>queue := rest\<rparr>"
    define g2 where "g2 = (case rest of
                        [] \<Rightarrow> g1
                      | nextText # _ \<Rightarrow>
                          if nextText \<noteq> [] then
                            set_prefetchQueue r
                              (ra_prefetchQueue (readers g1 ! r) @ [length (calls g1)])
                              (getAudioUri chunk r nextText e g1)
                          else g1)"
    have d: "drain chunk r g =
               (if ra_count (readers g2 ! r) = 0 then
                  await_audio r (Some (length (calls g2))) (getAudioUri chunk r tx e g2)
                else
                  (case ra_prefetchQueue (readers g2 ! r) of
                     [] \<Rightarrow> await_audio r None g2
                   | c # cs \<Rightarrow> await_audio r (Some c) (set_prefetchQueue r cs g2)))"
      unfolding g2_def g1_def e_def using Cons False by (simp add: drain_def Let_def)
    have cnt: "ra_count (readers g2 ! r) = ra_count (readers g ! r)"
      using assms(1)
      by (simp add: g2_def g1_def inside_def set_prefetchQueue_def split: list.split)
    have step2: "inside (Suc n) r g2" if "inside n r g" for n
    proof -
      from that have 1: "inside n r g1"
        by (simp add: g1_def)
      then have 2: "inside (Suc n) r g1"
        by (simp add: inside_def)
      from inside_prefetch [OF 1] 2 show ?thesis
        by (simp add: g2_def split: list.split)
    qed
    show ?thesis
    proof (cases "ra_count (readers g ! r) = 0")
      case True
      with assms have "inside 0 r g"
        by (simp add: inside_def)
      then have "inside 1 r g2"
        using step2 by simp
      then have "after 1 r (await_audio r (Some (length (calls g2))) (getAudioUri chunk r tx e g2))"
        by (rule inside_current)
      with True cnt d show ?thesis
        by simp
    next
      case False
      from assms(1) have "inside (Suc 1) r g2"
        by (rule step2)
      from inside_shift [OF this] False cnt d show ?thesis
        by simp
    qed
  qed
qed

lemma after_rd_ok: "after 1 r g \<Longrightarrow> rd_ok (calls g) (readers g ! r) r"
  by (simp add: after_def rd_ok_def)

lemma rd_ok_inside:
  "r < length (readers g) \<Longrightarrow> rd_ok (calls g) (readers g ! r) r \<Longrightarrow>
   \<not> awaits_audio (ra_pc (readers g ! r)) \<Longrightarrow> inside 1 r g"
  by (simp add: inside_def rd_ok_def)

lemma tidy_drain [tidy_mono]:
  assumes "tidy g" "r < length (readers g)" "\<not> awaits_audio (ra_pc (readers g ! r))"
    and "ra_count (readers g ! r) = 0 \<longrightarrow> ra_prefetchQueue (readers g ! r) = []"
  shows "tidy (drain chunk r g)"
proof -
  from assms(1,2) have "rd_ok (calls g) (readers g ! r) r"
    by (simp add: tidy_def)
  with assms(2,3) have "inside 1 r g"
    by (intro rd_ok_inside)
  then have "after 1 r (drain chunk r g)"
    using assms(4) by (rule drain_after)
  then have "rd_ok (calls (drain chunk r g)) (readers (drain chunk r g) ! r) r"
    by (rule after_rd_ok)
  with assms(1) extends_drain assms(2) show ?thesis
    by (rule tidy_extends)
qed

lemma rd_ok_other_field:
  "ra_pc rd' = ra_pc rd \<Longrightarrow> ra_prefetchQueue rd' = ra_prefetchQueue rd \<Longrightarrow>
   rd_ok cs rd' r = rd_ok cs rd r"
  by (simp add: rd_ok_def)

lemma tidy_play [tidy_mono]:
  "tidy g \<Longrightarrow> \<not> awaits_audio (ra_pc (readers g ! r)) \<Longrightarrow> tidy (play r u g)"
  by (simp add: play_def tidy_set_pc before_loop_def)

lemma tidy_readAloud_sink [tidy_mono]:
  "tidy g \<Longrightarrow> \<not> awaits_audio (ra_pc (readers g ! r)) \<Longrightarrow> tidy (readAloud_sink r u ok g)"
  by (simp add: readAloud_sink_def tidy_set_pc before_loop_def)

lemma tidy_readAloud_begin [tidy_mono]:
  assumes "tidy g" "before_loop (ra_pc (readers g ! r))"
  shows "tidy (readAloud_begin chunk r g)"
proof -
  let ?g = "g\<lparr>queue := queue g @ chunk (ra_text (readers g ! r)), playing := True\<rparr>"
  have "rd_ok (calls g) ((readers g ! r)\<lparr>ra_pc := RA_AwaitSync, ra_count := 0\<rparr>) r"
    if "r < length (readers g)"
  proof -
    from assms(1) that have ok: "rd_ok (calls g) (readers g ! r) r"
      by (simp add: tidy_def)
    have na: "\<not> awaits_audio (ra_pc (readers g ! r))"
      using assms(2) by (cases "ra_pc (readers g ! r)") (auto simp: before_loop_def)
    have "rd_ok (calls g) ((readers g ! r)\<lparr>ra_pc := RA_AwaitSync\<rparr>) r"
      using ok na by (rule rd_ok_set_pc) (use assms(2) in simp_all)
    then show ?thesis
      by (simp add: rd_ok_def)
  qed
  with assms(1) have "tidy (g\<lparr>readers := (readers g)[r := (readers g ! r)\<lparr>ra_pc := RA_AwaitSync, ra_count := 0\<rparr>]\<rparr>)"
    by (intro tidy_readers_update)
  then show ?thesis
    by (simp add: readAloud_begin_def Let_def updateContextMenus_def emit_def tidy_def)
qed

lemma tidy_new_reader:
  assumes "tidy g"
  shows "tidy (g\<lparr>readers := readers g @ [\<lparr>ra_pc = RA_AwaitStop p, ra_text = t, ra_count = 0,
                ra_encoding = [], ra_prefetchQueue = []\<rparr>]\<rparr>)"
  using assms
  by (auto simp: tidy_def rd_ok_def covered_def before_loop_def nth_append less_Suc_eq)

lemma tidy_readAloud [tidy_mono]:
  assumes "tidy g"
  shows "tidy (readAloud chunk t g)"
proof -
  let ?g = "g\<lparr>readers := readers g @ [\<lparr>ra_pc = RA_AwaitStop ST_AwaitSink, ra_text = t, ra_count = 0,
                ra_encoding = [], ra_prefetchQueue = []\<rparr>]\<rparr>"
  have 1: "tidy ?g"
    using assms by (rule tidy_new_reader)
  have "tidy (readAloud_begin chunk (length (readers g)) ?g)"
    using 1 by (rule tidy_readAloud_begin) (simp add: before_loop_def)
  with 1 show ?thesis
    by (simp add: readAloud_def Let_def)
qed

lemma tidy_reader_stop_resume [tidy_mono]:
  assumes "tidy g" "ra_pc (readers g ! r) = RA_AwaitStop p"
  shows "tidy (reader_stop_resume chunk r p' ok g)"
proof -
  have "tidy (set_pc r (RA_AwaitStop q) (emit es g))" for q es
    by (rule tidy_set_pc) (use assms in \<open>simp_all add: before_loop_def\<close>)
  moreover have "tidy (readAloud_begin chunk r (emit es g))" for es
    by (rule tidy_readAloud_begin) (use assms in \<open>simp_all add: before_loop_def\<close>)
  ultimately show ?thesis
    by (simp add: reader_stop_resume_def stopReading_resume_def split: stop_pc.split)
qed

lemma tidy_readAloud_synced [tidy_mono]:
  assumes "tidy g" "r < length (readers g)" "ra_pc (readers g ! r) = RA_AwaitSync"
  shows "tidy (readAloud_synced chunk r e g)"
proof -
  let ?rd = "(readers g ! r)\<lparr>ra_encoding := e, ra_prefetchQueue := []\<rparr>"
  let ?g = "g\<lparr>readers := (readers g)[r := ?rd], cancellationToken := False\<rparr>"
  from assms(1,2) have ok: "rd_ok (calls g) (readers g ! r) r"
    by (simp add: tidy_def)
  with assms(3) have "ra_prefetchQueue (readers g ! r) = []"
    by (simp add: rd_ok_def before_loop_def)
  with ok have "rd_ok (calls g) ?rd r"
    by (simp add: rd_ok_def)
  with assms(1) have "tidy (g\<lparr>readers := (readers g)[r := ?rd]\<rparr>)"
    by (intro tidy_readers_update)
  then have "tidy ?g"
    by (simp add: tidy_def)
  then have "tidy (drain chunk r ?g)"
    by (rule tidy_drain) (use assms(2,3) in simp_all)
  then show ?thesis
    by (simp add: readAloud_synced_def)
qed

lemma tidy_readAloud_played [tidy_mono]:
  assumes "tidy g" "r < length (readers g)" "ra_pc (readers g ! r) = RA_AwaitPlay"
  shows "tidy (readAloud_played chunk r ok g)"
proof (cases ok)
  case True
  let ?g1 = "emit [PlayEnded r] g"
  let ?rd = "(readers ?g1 ! r)\<lparr>ra_count := Suc (ra_count (readers ?g1 ! r))\<rparr>"
  let ?g = "?g1\<lparr>readers := (readers ?g1)[r := ?rd]\<rparr>"
  from assms(1,2) have "rd_ok (calls g) (readers g ! r) r"
    by (simp add: tidy_def)
  then have "rd_ok (calls ?g1) ?rd r"
    by (simp add: rd_ok_def)
  moreover have "tidy ?g1"
    using assms(1) by simp
  ultimately have "tidy ?g"
    by (intro tidy_readers_update)
  then have "tidy (drain chunk r ?g)"
    by (rule tidy_drain) (use assms(2,3) in simp_all)
  with True show ?thesis
    by (simp add: readAloud_played_def Let_def)
next
  case False
  have "tidy (set_pc r (RA_Done RetUndefined) (emit [PlayFailed r, WarnPlay r] g))"
    by (rule tidy_set_pc) (use assms in \<open>simp_all add: before_loop_def\<close>)
  with False show ?thesis
    by (simp add: readAloud_played_def)
qed

lemma tidy_step: "tidy g \<Longrightarrow> tidy (step chunk i g)"
proof (cases i)
  case (SinkReady u ok)
  assume "tidy g"
  with SinkReady show ?thesis
    by (auto simp: sink_ready_def intro!: tidy_mono
             split: tid.split ra_pc.split stop_pc.split syn_pc.split)
next
  case (Reply u ok)
  assume "tidy g"
  with Reply show ?thesis
    by (auto simp: reply_def intro!: tidy_mono
             split: tid.split ra_pc.split stop_pc.split syn_pc.split)
next
  case InvokeStopReading
  assume "tidy g"
  then have "tidy (stopReading (Stopper (length (stoppers g))) g)"
    by simp
  then show ?thesis
    unfolding InvokeStopReading by (simp add: tidy_def)
qed (auto intro: tidy_mono)

lemma tidy_init: "tidy init"
  by (simp add: tidy_def init_def)

lemma tidy_run: "tidy g \<Longrightarrow> tidy (run chunk ins g)"
  by (induction ins arbitrary: g) (simp_all add: tidy_step)

text \<open>Counting the pending calls of a reader.\<close>

lemma inflight_card:
  "inflight r g = card {c. c < length (calls g) \<and> c_owner (calls g ! c) = r \<and> c_result (calls g ! c) = None}"
  by (simp add: inflight_def length_filter_conv_card)

lemma inflight_bound:
  assumes "tidy g" "r < length (readers g)"
  shows "inflight r g \<le> (if awaits_audio (ra_pc (readers g ! r)) then 2 else 1)"
    and "before_loop (ra_pc (readers g ! r)) \<Longrightarrow> inflight r g = 0"
proof -
  let ?rd = "readers g ! r"
  let ?P = "{c. c < length (calls g) \<and> c_owner (calls g ! c) = r \<and> c_result (calls g ! c) = None}"
  from assms have ok: "covered (calls g) (ra_pc ?rd) (ra_prefetchQueue ?rd) r"
    "length (ra_prefetchQueue ?rd) \<le> 1" "before_loop (ra_pc ?rd) \<longrightarrow> ra_prefetchQueue ?rd = []"
    by (simp_all add: tidy_def rd_ok_def)
  have sub: "?P \<subseteq> set (ra_prefetchQueue ?rd) \<union> {c. ra_pc ?rd = RA_AwaitAudio c}"
    using ok(1) by (auto simp: covered_def)
  have one: "card (set (ra_prefetchQueue ?rd)) \<le> 1"
    using card_length [of "ra_prefetchQueue ?rd"] ok(2) by simp
  show "inflight r g \<le> (if awaits_audio (ra_pc ?rd) then 2 else 1)"
  proof (cases "ra_pc ?rd")
    case (RA_AwaitAudio c)
    with sub have "?P \<subseteq> insert c (set (ra_prefetchQueue ?rd))"
      by auto
    then have "card ?P \<le> card (insert c (set (ra_prefetchQueue ?rd)))"
      by (intro card_mono) simp_all
    also have "\<dots> \<le> Suc (card (set (ra_prefetchQueue ?rd)))"
      by (simp add: card_insert_if)
    finally show ?thesis
      using one RA_AwaitAudio by (simp add: inflight_card)
  qed (use sub one in \<open>auto simp: inflight_card intro!: order_trans [OF card_mono [of "set (ra_prefetchQueue ?rd)"]]\<close>)
  show "inflight r g = 0" if "before_loop (ra_pc ?rd)"
  proof -
    from that ok(3) have "ra_prefetchQueue ?rd = []"
      by simp
    moreover from that have "\<nexists>c. ra_pc ?rd = RA_AwaitAudio c"
      by (auto simp: before_loop_def)
    ultimately have "?P = {}"
      using sub by auto
    then show ?thesis
      by (simp add: inflight_card)
  qed
qed

subsection \<open>Playbacks sent and answered\<close>

lemma plays_frame [simp]:
  "filter is_play (trace (set_pc r pc g)) = filter is_play (trace g)"
  "filter is_play (trace (set_prefetchQueue r q g)) = filter is_play (trace g)"
  "filter is_play (trace (set_sub c i sp g)) = filter is_play (trace g)"
  "filter is_play (trace (updateContextMenus g)) = filter is_play (trace g)"
  "filter is_play (trace (createOffscreenDocument t g)) = filter is_play (trace g)"
  "filter is_play (trace (stopReading t g)) = filter is_play (trace g)"
  "filter is_play (trace (fst (stopReading_resume t p ok g))) = filter is_play (trace g)"
  "filter is_play (trace (getAudioUri chunk r txt e g)) = filter is_play (trace g)"
  "filter is_play (trace (play r u g)) = filter is_play (trace g)"
  "filter is_play (trace (stopper_resume k p ok g)) = filter is_play (trace g)"
  "filter is_play (trace (sendMessageToCurrentTab title m g)) = filter is_play (trace g)"
  "filter is_play (trace (tabs_got n b g)) = filter is_play (trace g)"
  by (simp_all add: stopReading_resume_def play_def stopper_resume_def tabs_got_trace
      split: stop_pc.split option.split)

lemma plays_audio [simp]:
  "filter is_play (trace (audio_settled r res g)) = filter is_play (trace g)"
  "filter is_play (trace (await_audio r p g)) = filter is_play (trace g)"
  by (simp_all add: audio_settled_def await_audio_def split: sum.split option.split)

lemma plays_settle [simp]:
  "filter is_play (trace (settle c res g)) = filter is_play (trace g)"
  by (simp add: settle_def Let_def)

lemma plays_synth [simp]:
  "filter is_play (trace (synth_throw c i e g)) = filter is_play (trace g)"
  "filter is_play (trace (synth_return c i a g)) = filter is_play (trace g)"
  by (simp_all add: synth_throw_def synth_return_def Let_def)

lemma plays_synthesize [simp]:
  "filter is_play (trace (synthesize_sync c i k g)) = filter is_play (trace g)"
  "filter is_play (trace (synthesize_fetched c i fr g)) = filter is_play (trace g)"
  "filter is_play (trace (synth_stop_resume c i p m ok g)) = filter is_play (trace g)"
  by (simp_all add: synthesize_sync_def synthesize_fetched_def synth_stop_resume_def
        stopReading_resume_def
      split: fetch_result.split stop_pc.split)

lemma plays_drain [simp]:
  "filter is_play (trace (drain chunk r g)) = filter is_play (trace g)"
  by (simp add: drain_def Let_def split: list.split)

lemma plays_readAloud [simp]:
  "filter is_play (trace (readAloud_begin chunk r g)) = filter is_play (trace g)"
  "filter is_play (trace (readAloud chunk txt g)) = filter is_play (trace g)"
  "filter is_play (trace (readAloud_synced chunk r e g)) = filter is_play (trace g)"
  "filter is_play (trace (reader_stop_resume chunk r p ok g)) = filter is_play (trace g)"
  by (simp_all add: readAloud_def readAloud_synced_def reader_stop_resume_def
        stopReading_resume_def Let_def
      split: stop_pc.split)

lemma plays_sink:
  "filter is_play (trace (readAloud_sink r u ok g)) =
     filter is_play (trace g) @ (if ok then [SendPlay r u] else [])"
  by (simp add: readAloud_sink_def)

lemma plays_played:
  "filter is_play (trace (readAloud_played chunk r ok g)) =
     filter is_play (trace g) @ [if ok then PlayEnded r else PlayFailed r]"
  by (simp add: readAloud_played_def Let_def)

text \<open>Who waits for the answer to a \<^verbatim>\<open>play\<close> message.\<close>

lemma awaiting_fields [simp]:
  "awaiting_play (g\<lparr>queue := q\<rparr>) = awaiting_play g"
  "awaiting_play (g\<lparr>playing := b\<rparr>) = awaiting_play g"
  "awaiting_play (g\<lparr>cancellationToken := b\<rparr>) = awaiting_play g"
  "awaiting_play (g\<lparr>stoppers := s\<rparr>) = awaiting_play g"
  "awaiting_play (g\<lparr>calls := cs\<rparr>) = awaiting_play g"
  "awaiting_play (g\<lparr>tabQueries := tq\<rparr>) = awaiting_play g"
  "awaiting_play (emit es g) = awaiting_play g"
  "awaiting_play (updateContextMenus g) = awaiting_play g"
  "awaiting_play (createOffscreenDocument t g) = awaiting_play g"
  "awaiting_play (stopReading t g) = awaiting_play g"
  "awaiting_play (set_sub c i sp g) = awaiting_play g"
  "awaiting_play (getAudioUri chunk r txt e g) = awaiting_play g"
  "awaiting_play (fst (stopReading_resume t p ok g)) = awaiting_play g"
  "awaiting_play (stopper_resume k p ok g) = awaiting_play g"
  "awaiting_play (sendMessageToCurrentTab title m g) = awaiting_play g"
  "awaiting_play (tabs_got n b g) = awaiting_play g"
  by (simp_all add: awaiting_play_def)

lemma awaiting_set_pc [simp]:
  "awaiting_play (set_pc r pc g) = (awaiting_play g)[r := (pc = RA_AwaitPlay)]"
  by (simp add: awaiting_play_def set_pc_def map_update)

lemma awaiting_set_prefetchQueue [simp]:
  "awaiting_play (set_prefetchQueue r q g) = awaiting_play g"
  unfolding awaiting_play_def set_prefetchQueue_def
  using map_update_same [of "\<lambda>rd. ra_pc rd = RA_AwaitPlay" "readers g" r]
  by (simp add: map_update)

lemma awaiting_play_play [simp]:
  "awaiting_play (play r u g) = (awaiting_play g)[r := False]"
  by (simp add: play_def)

lemma awaiting_audio [simp]:
  "awaiting_play (audio_settled r res g) = (awaiting_play g)[r := False]"
  "awaiting_play (await_audio r p g) = (awaiting_play g)[r := False]"
  by (simp_all add: audio_settled_def await_audio_def split: sum.split option.split)

lemma awaiting_drain [simp]:
  "awaiting_play (drain chunk r g) = (awaiting_play g)[r := False]"
  by (simp add: drain_def Let_def split: list.split)

lemma update_False_same:
  "r < length xs \<longrightarrow> \<not> xs ! r \<Longrightarrow> xs[r := False] = xs"
  by (cases "r < length xs") (simp_all add: list_update_same_conv list_update_beyond)

lemma awaiting_nth:
  "r < length (readers g) \<Longrightarrow> awaiting_play g ! r = (ra_pc (readers g ! r) = RA_AwaitPlay)"
  by (simp add: awaiting_play_def)

lemma awaiting_length [simp]: "length (awaiting_play g) = length (readers g)"
  by (simp add: awaiting_play_def)

lemma awaiting_settle [simp]:
  "awaiting_play (settle c res g) = awaiting_play g"
proof -
  let ?r = "c_owner (calls g ! c)"
  have "(awaiting_play g)[?r := False] = awaiting_play g"
    if "?r < length (readers g)" "ra_pc (readers g ! ?r) = RA_AwaitAudio c"
    by (rule update_False_same) (use that in \<open>simp add: awaiting_nth\<close>)
  then show ?thesis
    by (simp add: settle_def Let_def)
qed

lemma awaiting_synth [simp]:
  "awaiting_play (synth_throw c i e g) = awaiting_play g"
  "awaiting_play (synth_return c i a g) = awaiting_play g"
  by (simp_all add: synth_throw_def synth_return_def Let_def)

lemma awaiting_synthesize [simp]:
  "awaiting_play (synthesize_sync c i k g) = awaiting_play g"
  "awaiting_play (synthesize_fetched c i fr g) = awaiting_play g"
  "awaiting_play (synth_stop_resume c i p m ok g) = awaiting_play g"
  by (simp_all add: synthesize_sync_def synthesize_fetched_def synth_stop_resume_def
        stopReading_resume_def
      split: fetch_result.split stop_pc.split)

lemma awaiting_readAloud_begin [simp]:
  "awaiting_play (readAloud_begin chunk r g) = (awaiting_play g)[r := False]"
  by (simp add: readAloud_begin_def Let_def awaiting_play_def map_update updateContextMenus_def emit_def)

lemma awaiting_readAloud [simp]:
  "awaiting_play (readAloud chunk txt g) = awaiting_play g @ [False]"
  by (simp add: readAloud_def Let_def) (simp add: awaiting_play_def list_update_append)

lemma awaiting_reader_stop_resume [simp]:
  "awaiting_play (reader_stop_resume chunk r p ok g) = (awaiting_play g)[r := False]"
  by (simp add: reader_stop_resume_def stopReading_resume_def split: stop_pc.split)

lemma awaiting_readAloud_synced [simp]:
  "awaiting_play (readAloud_synced chunk r e g) = (awaiting_play g)[r := False]"
  by (simp add: readAloud_synced_def) (simp add: awaiting_play_def map_update)

lemma awaiting_readAloud_sink [simp]:
  "awaiting_play (readAloud_sink r u ok g) = (awaiting_play g)[r := ok]"
  by (simp add: readAloud_sink_def)

lemma awaiting_readAloud_played [simp]:
  "awaiting_play (readAloud_played chunk r ok g) = (awaiting_play g)[r := False]"
  by (simp add: readAloud_played_def Let_def) (simp add: awaiting_play_def map_update)

lemma sent_via: "filter (play_sent r) es = filter (play_sent r) (filter is_play es)"
proof (induction es)
  case (Cons e es)
  then show ?case by (cases e) simp_all
qed simp

lemma answered_via: "filter (play_answered r) es = filter (play_answered r) (filter is_play es)"
proof (induction es)
  case (Cons e es)
  then show ?case by (cases e) simp_all
qed simp

lemma balanced_alt:
  "balanced g =
     (\<forall>r. length (filter (play_sent r) (filter is_play (trace g))) =
            length (filter (play_answered r) (filter is_play (trace g)))
            + (if r < length (awaiting_play g) \<and> awaiting_play g ! r then 1 else 0))"
  unfolding balanced_def sent_via [symmetric] answered_via [symmetric]
  by (auto simp: awaiting_nth cong: if_cong)

lemma balanced_same:
  assumes "balanced g" "filter is_play (trace g') = filter is_play (trace g)"
    "awaiting_play g' = awaiting_play g"
  shows "balanced g'"
  using assms by (simp add: balanced_alt)

lemma balanced_off:
  assumes "balanced g" "filter is_play (trace g') = filter is_play (trace g)"
    "awaiting_play g' = (awaiting_play g)[r := False]"
    "r < length (readers g) \<longrightarrow> ra_pc (readers g ! r) \<noteq> RA_AwaitPlay"
  shows "balanced g'"
proof -
  have "(awaiting_play g)[r := False] = awaiting_play g"
    by (rule update_False_same) (use assms(4) in \<open>simp add: awaiting_nth\<close>)
  with assms(1-3) show ?thesis
    by (simp add: balanced_same)
qed

lemma balanced_new:
  assumes "balanced g" "filter is_play (trace g') = filter is_play (trace g)"
    "awaiting_play g' = awaiting_play g @ [False]"
  shows "balanced g'"
  using assms by (auto simp: balanced_alt nth_append less_Suc_eq cong: if_cong)

lemma balanced_sent:
  assumes "balanced g" "r < length (readers g)" "ra_pc (readers g ! r) \<noteq> RA_AwaitPlay"
    "filter is_play (trace g') = filter is_play (trace g) @ (if ok then [SendPlay r u] else [])"
    "awaiting_play g' = (awaiting_play g)[r := ok]"
  shows "balanced g'"
proof -
  have off: "\<not> awaiting_play g ! r"
    using assms(2,3) by (simp add: awaiting_nth)
  show ?thesis
    unfolding balanced_alt
  proof
    fix r'
    from assms(1) have b: "length (filter (play_sent r') (filter is_play (trace g))) =
            length (filter (play_answered r') (filter is_play (trace g)))
            + (if r' < length (awaiting_play g) \<and> awaiting_play g ! r' then 1 else 0)"
      by (simp add: balanced_alt)
    show "length (filter (play_sent r') (filter is_play (trace g'))) =
            length (filter (play_answered r') (filter is_play (trace g')))
            + (if r' < length (awaiting_play g') \<and> awaiting_play g' ! r' then 1 else 0)"
      unfolding assms(4,5) using b off assms(2)
      by (cases "r' = r"; cases ok) (simp_all add: nth_list_update)
  qed
qed

lemma balanced_answered:
  assumes "balanced g" "r < length (readers g)" "ra_pc (readers g ! r) = RA_AwaitPlay"
    "filter is_play (trace g') = filter is_play (trace g) @ [if ok then PlayEnded r else PlayFailed r]"
    "awaiting_play g' = (awaiting_play g)[r := False]"
  shows "balanced g'"
proof -
  have on: "awaiting_play g ! r"
    using assms(2,3) by (simp add: awaiting_nth)
  show ?thesis
    unfolding balanced_alt
  proof
    fix r'
    from assms(1) have b: "length (filter (play_sent r') (filter is_play (trace g))) =
            length (filter (play_answered r') (filter is_play (trace g)))
            + (if r' < length (awaiting_play g) \<and> awaiting_play g ! r' then 1 else 0)"
      by (simp add: balanced_alt)
    show "length (filter (play_sent r') (filter is_play (trace g'))) =
            length (filter (play_answered r') (filter is_play (trace g')))
            + (if r' < length (awaiting_play g') \<and> awaiting_play g' ! r' then 1 else 0)"
      unfolding assms(4,5) using b on assms(2)
      by (cases "r' = r"; cases ok) (simp_all add: nth_list_update)
  qed
qed

lemma balanced_step: "balanced g \<Longrightarrow> balanced (step chunk i g)"
proof (cases i)
  case (InvokeReadAloud t)
  assume "balanced g"
  then show ?thesis
    unfolding InvokeReadAloud by (rule balanced_new) simp_all
next
  case InvokeStopReading
  assume "balanced g"
  then show ?thesis
    unfolding InvokeStopReading by (rule balanced_same) simp_all
next
  case (SyncGot r e)
  assume b: "balanced g"
  show ?thesis
  proof (cases "r < length (readers g) \<and> ra_pc (readers g ! r) = RA_AwaitSync")
    case True
    from b have "balanced (readAloud_synced chunk r e g)"
      by (rule balanced_off [where r = r]) (use True in simp_all)
    with True SyncGot show ?thesis by simp
  next
    case False
    with b SyncGot show ?thesis by auto
  qed
next
  case (SynSyncGot c j k)
  assume b: "balanced g"
  then have "balanced (synthesize_sync c j k g)"
    by (rule balanced_same) simp_all
  with b SynSyncGot show ?thesis by auto
next
  case (FetchDone c j res)
  assume b: "balanced g"
  then have "balanced (synthesize_fetched c j res g)"
    by (rule balanced_same) simp_all
  with b FetchDone show ?thesis by auto
next
  case (TabsGot n hasTab)
  assume b: "balanced g"
  then have "balanced (tabs_got n hasTab g)"
    by (rule balanced_same) simp_all
  with b TabsGot show ?thesis by auto
next
  case (SinkReady t ok)
  assume b: "balanced g"
  have 1: "balanced (reader_stop_resume chunk r p ok g)"
    if "r < length (readers g)" "ra_pc (readers g ! r) = RA_AwaitStop p'" for r p p'
    using b by (rule balanced_off [where r = r]) (use that in simp_all)
  have 2: "balanced (readAloud_sink r u ok g)"
    if "r < length (readers g)" "ra_pc (readers g ! r) = RA_AwaitSink u" for r u
    using b that(1) by (rule balanced_sent [where ok = ok and u = u]) (use that in \<open>simp_all add: plays_sink\<close>)
  have 3: "balanced (stopper_resume k p ok g)" for k p
    using b by (rule balanced_same) simp_all
  have 4: "balanced (synth_stop_resume c j p m ok g)" for c j p m
    using b by (rule balanced_same) simp_all
  from b 1 2 3 4 show ?thesis
    unfolding SinkReady
    by (simp add: sink_ready_def split: tid.split ra_pc.split stop_pc.split syn_pc.split)
next
  case (Reply t ok)
  assume b: "balanced g"
  have 1: "balanced (reader_stop_resume chunk r p ok g)"
    if "r < length (readers g)" "ra_pc (readers g ! r) = RA_AwaitStop p'" for r p p'
    using b by (rule balanced_off [where r = r]) (use that in simp_all)
  have 2: "balanced (readAloud_played chunk r ok g)"
    if "r < length (readers g)" "ra_pc (readers g ! r) = RA_AwaitPlay" for r
    using b that by (rule balanced_answered [where ok = ok]) (simp_all add: plays_played)
  have 3: "balanced (stopper_resume k p ok g)" for k p
    using b by (rule balanced_same) simp_all
  have 4: "balanced (synth_stop_resume c j p m ok g)" for c j p m
    using b by (rule balanced_same) simp_all
  from b 1 2 3 4 show ?thesis
    unfolding Reply
    by (simp add: reply_def split: tid.split ra_pc.split stop_pc.split syn_pc.split)
qed

lemma balanced_init: "balanced init"
  by (simp add: balanced_def init_def)

lemma balanced_run: "balanced g \<Longrightarrow> balanced (run chunk ins g)"
  by (induction ins arbitrary: g) (simp_all add: balanced_step)

lemma balanced_playbacks:
  "balanced g \<Longrightarrow>
   playbacks r g = (if r < length (readers g) \<and> ra_pc (readers g ! r) = RA_AwaitPlay then 1 else 0)"
  by (simp add: balanced_def playbacks_def)

subsection \<open>The order of requests and playbacks in one session\<close>

lemma marks_simps [simp]:
  "marks [] = []"
  "marks (e # es) = (case mark_of e of None \<Rightarrow> marks es | Some m \<Rightarrow> m # marks es)"
  "marks (es @ fs) = marks es @ marks fs"
  by (simp_all add: marks_def map_filter_simps map_filter_def split: option.split)

lemma marks_frame [simp]:
  "marks (trace (set_pc r pc g)) = marks (trace g)"
  "marks (trace (set_prefetchQueue r q g)) = marks (trace g)"
  "marks (trace (set_sub c i sp g)) = marks (trace g)"
  "marks (trace (updateContextMenus g)) = marks (trace g)"
  "marks (trace (createOffscreenDocument t g)) = marks (trace g)"
  "marks (trace (stopReading t g)) = marks (trace g)"
  "marks (trace (fst (stopReading_resume t p ok g))) = marks (trace g)"
  "marks (trace (play r u g)) = marks (trace g)"
  "marks (trace (stopper_resume k p ok g)) = marks (trace g)"
  "marks (trace (sendMessageToCurrentTab title m g)) = marks (trace g)"
  "marks (trace (tabs_got n b g)) = marks (trace g)"
  by (simp_all add: stopReading_resume_def play_def stopper_resume_def tabs_got_trace
      split: stop_pc.split option.split)

lemma marks_audio [simp]:
  "marks (trace (audio_settled r res g)) = marks (trace g)"
  "marks (trace (await_audio r p g)) = marks (trace g)"
  by (simp_all add: audio_settled_def await_audio_def split: sum.split option.split)

lemma marks_settle [simp]:
  "marks (trace (settle c res g)) = marks (trace g)"
  by (simp add: settle_def Let_def)

lemma marks_synth [simp]:
  "marks (trace (synth_throw c i e g)) = marks (trace g)"
  "marks (trace (synth_return c i a g)) = marks (trace g)"
  by (simp_all add: synth_throw_def synth_return_def Let_def)

lemma marks_synthesize [simp]:
  "marks (trace (synthesize_sync c i k g)) = marks (trace g)"
  "marks (trace (synthesize_fetched c i fr g)) = marks (trace g)"
  "marks (trace (synth_stop_resume c i p m ok g)) = marks (trace g)"
  by (simp_all add: synthesize_sync_def synthesize_fetched_def synth_stop_resume_def
        stopReading_resume_def
      split: fetch_result.split stop_pc.split)

text \<open>Where a session stands, and what does not move it.\<close>

lemma phase_fields [simp]:
  "phase A B C (g\<lparr>playing := b\<rparr>) = phase A B C g"
  "phase A B C (g\<lparr>cancellationToken := b\<rparr>) = phase A B C g"
  "phase A B C (g\<lparr>stoppers := s\<rparr>) = phase A B C g"
  "phase A B C (g\<lparr>calls := cs\<rparr>) = phase A B C g"
  "phase A B C (g\<lparr>tabQueries := tq\<rparr>) = phase A B C g"
  "phase A B C (set_sub c i sp g) = phase A B C g"
  "phase A B C (updateContextMenus g) = phase A B C g"
  "phase A B C (createOffscreenDocument t g) = phase A B C g"
  "phase A B C (fst (stopReading_resume t p ok g)) = phase A B C g"
  "phase A B C (stopper_resume k p ok g) = phase A B C g"
  "phase A B C (sendMessageToCurrentTab title m g) = phase A B C g"
  "phase A B C (tabs_got n b g) = phase A B C g"
  by (simp_all add: phase_def)

lemma mid_fields [simp]:
  "mid A B C (g\<lparr>playing := b\<rparr>) = mid A B C g"
  "mid A B C (g\<lparr>cancellationToken := b\<rparr>) = mid A B C g"
  "mid A B C (updateContextMenus g) = mid A B C g"
  "mid A B C (createOffscreenDocument t g) = mid A B C g"
  by (simp_all add: mid_def)

lemma canon_take:
  "take 2 (canon A B C) = [Requested B, Requested A]"
  "take 3 (canon A B C) = [Requested B, Requested A, Begun]"
  "take 4 (canon A B C) = [Requested B, Requested A, Begun, Ended]"
  "take 5 (canon A B C) = [Requested B, Requested A, Begun, Ended, Requested C]"
  "take 6 (canon A B C) = [Requested B, Requested A, Begun, Ended, Requested C, Begun]"
  "take 7 (canon A B C) = [Requested B, Requested A, Begun, Ended, Requested C, Begun, Ended]"
  "take 8 (canon A B C) = [Requested B, Requested A, Begun, Ended, Requested C, Begun, Ended, Begun]"
  "take 9 (canon A B C) = canon A B C"
  by (simp_all add: canon_def)

lemma small_cases: "k \<le> 2 \<Longrightarrow> k = 0 \<or> k = Suc 0 \<or> k = Suc (Suc 0)"
  by arith

lemma done_phase:
  "length (readers g) = 1 \<Longrightarrow> prefix (marks (trace g)) (canon A B C) \<Longrightarrow>
   phase A B C (set_pc 0 (RA_Done x) g)"
  by (simp add: phase_def)

lemma phase_prefix: "phase A B C g \<Longrightarrow> prefix (marks (trace g)) (canon A B C)"
  by (cases "ra_pc (readers g ! 0)") (auto simp: phase_def take_is_prefix)

lemma phase_done: "phase A B C g \<Longrightarrow> phase A B C (set_pc 0 (RA_Done x) g)"
  by (rule done_phase) (simp_all add: phase_def phase_prefix)

lemma phase_emit:
  "marks es = [] \<Longrightarrow> phase A B C (emit es g) = phase A B C g"
  by (simp add: phase_def)

lemma phase_stop: "phase A B C g \<Longrightarrow> phase A B C (stopReading t g)"
  by (cases "ra_pc (readers g ! 0)") (auto simp: phase_def)

lemma phase_mid:
  "phase A B C g \<Longrightarrow>
   ra_pc (readers g ! 0) = RA_AwaitAudio c \<or> ra_pc (readers g ! 0) = RA_AwaitSink u \<Longrightarrow>
   mid A B C g"
  by (auto simp: phase_def mid_def)

lemma mid_prefix: "mid A B C g \<Longrightarrow> prefix (marks (trace g)) (canon A B C)"
  by (simp add: mid_def take_is_prefix)

lemma mid_set_pc:
  "mid A B C g \<Longrightarrow> phase A B C (set_pc 0 (RA_AwaitAudio c) g)"
  "mid A B C g \<Longrightarrow> phase A B C (set_pc 0 (RA_AwaitSink u) g)"
  "mid A B C g \<Longrightarrow> phase A B C (set_pc 0 (RA_Done x) g)"
  by (simp_all add: mid_def phase_def take_is_prefix)

lemma mid_play: "mid A B C g \<Longrightarrow> phase A B C (play 0 u g)"
  by (simp add: play_def mid_set_pc)

lemma mid_audio_settled: "mid A B C g \<Longrightarrow> phase A B C (audio_settled 0 res g)"
  by (simp add: audio_settled_def mid_play mid_set_pc split: sum.split)

lemma mid_await_audio: "mid A B C g \<Longrightarrow> phase A B C (await_audio 0 p g)"
  by (simp add: await_audio_def mid_play mid_set_pc mid_audio_settled split: option.split)

lemma mid_set_prefetchQueue [simp]:
  "mid A B C (set_prefetchQueue 0 q g) = mid A B C g"
  by (cases "0 < length (readers g)") (simp_all add: mid_def)

lemma phase_settle: "phase A B C g \<Longrightarrow> phase A B C (settle c res g)"
proof -
  assume p: "phase A B C g"
  let ?g1 = "g\<lparr>calls := (calls g)[c := (calls g ! c)\<lparr>c_result := Some res\<rparr>]\<rparr>"
  let ?r = "c_owner (calls g ! c)"
  have "phase A B C (audio_settled ?r res ?g1)"
    if "?r < length (readers g)" "ra_pc (readers g ! ?r) = RA_AwaitAudio c"
  proof -
    from p that(1) have r: "?r = 0"
      by (simp add: phase_def)
    from p have "phase A B C ?g1"
      by simp
    then have "mid A B C ?g1"
      by (rule phase_mid [where c = c]) (use that(2) r in simp)
    then show ?thesis
      unfolding r by (rule mid_audio_settled)
  qed
  with p show ?thesis
    by (simp add: settle_def Let_def)
qed

lemma phase_synth:
  "phase A B C g \<Longrightarrow> phase A B C (synth_throw c i e g)"
  "phase A B C g \<Longrightarrow> phase A B C (synth_return c i a g)"
  by (simp_all add: synth_throw_def synth_return_def Let_def phase_settle)

lemma phase_synthesize:
  "phase A B C g \<Longrightarrow> phase A B C (synthesize_sync c i k g)"
  "phase A B C g \<Longrightarrow> phase A B C (synthesize_fetched c i fr g)"
  "phase A B C g \<Longrightarrow> phase A B C (synth_stop_resume c i p m ok g)"
  by (simp_all add: synthesize_sync_def synthesize_fetched_def synth_stop_resume_def
        stopReading_resume_def phase_synth phase_stop phase_emit
      split: fetch_result.split stop_pc.split)

lemma phase_readAloud_sink:
  assumes "phase A B C g" "ra_pc (readers g ! 0) = RA_AwaitSink u"
  shows "phase A B C (readAloud_sink 0 u ok g)"
proof (cases ok)
  case True
  from assms have k: "ra_count (readers g ! 0) \<le> 2"
    by (simp add: phase_def)
  from small_cases [OF k] assms True show ?thesis
    by (auto simp: readAloud_sink_def phase_def canon_take canon_def)
next
  case False
  from assms(1) have "phase A B C (emit [WarnPlay 0] g)"
    by (simp add: phase_emit)
  then have "phase A B C (set_pc 0 (RA_Done RetUndefined) (emit [WarnPlay 0] g))"
    by (rule phase_done)
  with False show ?thesis
    by (simp add: readAloud_sink_def)
qed

lemma at_drain_fields [simp]:
  "at_drain A B C (g\<lparr>cancellationToken := b\<rparr>) = at_drain A B C g"
  "at_drain A B C (g\<lparr>playing := b\<rparr>) = at_drain A B C g"
  by (simp_all add: at_drain_def)

lemma at_drain_prefix: "at_drain A B C g \<Longrightarrow> prefix (marks (trace g)) (canon A B C)"
  by (simp add: at_drain_def take_is_prefix)

lemma drain_round:
  assumes "queue g = tx # rest" "\<not> cancellationToken g"
    and "mid A B C
           (let g1 = g\<lparr>queue := rest\<rparr>;
                g2 = (case rest of
                        [] \<Rightarrow> g1
                      | nextText # _ \<Rightarrow>
                          if nextText \<noteq> [] then
                            set_prefetchQueue 0
                              (ra_prefetchQueue (readers g1 ! 0) @ [length (calls g1)])
                              (getAudioUri chunk 0 nextText (ra_encoding (readers g ! 0)) g1)
                          else g1)
            in if ra_count (readers g2 ! 0) = 0
               then getAudioUri chunk 0 tx (ra_encoding (readers g ! 0)) g2 else g2)"
  shows "phase A B C (drain chunk 0 g)"
proof -
  define e where "e = ra_encoding (readers g ! 0)"
  define g1 where "g1 = g\<lparr>queue := rest\<rparr>"
  define g2 where "g2 = (case rest of
                      [] \<Rightarrow> g1
                    | nextText # _ \<Rightarrow>
                        if nextText \<noteq> [] then
                          set_prefetchQueue 0
                            (ra_prefetchQueue (readers g1 ! 0) @ [length (calls g1)])
                            (getAudioUri chunk 0 nextText e g1)
                        else g1)"
  have d: "drain chunk 0 g =
             (if ra_count (readers g2 ! 0) = 0 then
                await_audio 0 (Some (length (calls g2))) (getAudioUri chunk 0 tx e g2)
              else
                (case ra_prefetchQueue (readers g2 ! 0) of
                   [] \<Rightarrow> await_audio 0 None g2
                 | c # cs \<Rightarrow> await_audio 0 (Some c) (set_prefetchQueue 0 cs g2)))"
    unfolding g2_def g1_def e_def using assms(1,2) by (simp add: drain_def Let_def)
  from assms(3) have m: "mid A B C (if ra_count (readers g2 ! 0) = 0
                                     then getAudioUri chunk 0 tx e g2 else g2)"
    unfolding Let_def g2_def g1_def e_def .
  show ?thesis
  proof (cases "ra_count (readers g2 ! 0) = 0")
    case True
    with m have "mid A B C (getAudioUri chunk 0 tx e g2)"
      by simp
    then have "phase A B C (await_audio 0 (Some (length (calls g2))) (getAudioUri chunk 0 tx e g2))"
      by (rule mid_await_audio)
    with True d show ?thesis
      by simp
  next
    case False
    with m have m2: "mid A B C g2"
      by simp
    have "phase A B C (case ra_prefetchQueue (readers g2 ! 0) of
                   [] \<Rightarrow> await_audio 0 None g2
                 | c # cs \<Rightarrow> await_audio 0 (Some c) (set_prefetchQueue 0 cs g2))"
      using m2 by (cases "ra_prefetchQueue (readers g2 ! 0)") (simp_all add: mid_await_audio)
    with False d show ?thesis
      by simp
  qed
qed

lemma drain_phase:
  assumes "at_drain A B C g" "B \<noteq> []" "C \<noteq> []"
  shows "phase A B C (drain chunk 0 g)"
proof -
  from assms(1) have len: "length (readers g) = 1"
    and m: "marks (trace g) = take (before_round (ra_count (readers g ! 0))) (canon A B C)"
    and q: "queue g = [] \<or> queue g = drop (ra_count (readers g ! 0)) [A, B, C]"
    by (simp_all add: at_drain_def)
  have stop: "phase A B C (updateContextMenus (set_pc 0 (RA_Done x) g'))"
    if "length (readers g') = 1" "marks (trace g') = marks (trace g)" for x g'
    using that at_drain_prefix [OF assms(1)] by (simp add: done_phase)
  show ?thesis
  proof (cases "queue g = [] \<or> cancellationToken g")
    case True
    then show ?thesis
      using stop [of "g\<lparr>playing := False\<rparr>"] stop [of "g\<lparr>cancellationToken := False, playing := False\<rparr>"] len
      by (auto simp: drain_def split: list.split)
  next
    case False
    with q have q': "queue g = drop (ra_count (readers g ! 0)) [A, B, C]" "queue g \<noteq> []"
      and tok: "\<not> cancellationToken g"
      by simp_all
    then have "ra_count (readers g ! 0) \<le> 2"
      by (cases "ra_count (readers g ! 0) \<le> 2") simp_all
    from small_cases [OF this] show ?thesis
    proof (elim disjE)
      assume k: "ra_count (readers g ! 0) = 0"
      with q' have qq: "queue g = A # [B, C]"
        by simp
      show ?thesis
        by (rule drain_round [OF qq tok])
           (use len m k assms(2) in \<open>simp add: mid_def Let_def canon_take\<close>)
    next
      assume k: "ra_count (readers g ! 0) = Suc 0"
      with q' have qq: "queue g = B # [C]"
        by simp
      show ?thesis
        by (rule drain_round [OF qq tok])
           (use len m k assms(3) in \<open>simp add: mid_def Let_def canon_take\<close>)
    next
      assume k: "ra_count (readers g ! 0) = Suc (Suc 0)"
      with q' have qq: "queue g = C # []"
        by simp
      show ?thesis
        by (rule drain_round [OF qq tok])
           (use len m k in \<open>simp add: mid_def Let_def canon_take\<close>)
    qed
  qed
qed

lemma phase_readAloud_synced:
  assumes "phase A B C g" "ra_pc (readers g ! 0) = RA_AwaitSync" "B \<noteq> []" "C \<noteq> []"
  shows "phase A B C (readAloud_synced chunk 0 e g)"
proof -
  let ?g = "g\<lparr>readers := (readers g)[0 := (readers g ! 0)\<lparr>ra_encoding := e, ra_prefetchQueue := []\<rparr>],
              cancellationToken := False\<rparr>"
  from assms(1,2) have "at_drain A B C ?g"
    by (auto simp: phase_def at_drain_def)
  then have "phase A B C (drain chunk 0 ?g)"
    using assms(3,4) by (rule drain_phase)
  then show ?thesis
    by (simp add: readAloud_synced_def)
qed

lemma phase_readAloud_played:
  assumes "phase A B C g" "ra_pc (readers g ! 0) = RA_AwaitPlay" "B \<noteq> []" "C \<noteq> []"
  shows "phase A B C (readAloud_played chunk 0 ok g)"
proof (cases ok)
  case True
  let ?g1 = "emit [PlayEnded 0] g"
  let ?g = "?g1\<lparr>readers := (readers ?g1)[0 := (readers ?g1 ! 0)\<lparr>ra_count := Suc (ra_count (readers ?g1 ! 0))\<rparr>]\<rparr>"
  from assms(1,2) have k: "ra_count (readers g ! 0) \<le> 2"
    by (simp add: phase_def)
  from small_cases [OF k] assms(1,2) have "at_drain A B C ?g"
    by (auto simp: phase_def at_drain_def canon_take) (simp_all add: canon_def)
  then have "phase A B C (drain chunk 0 ?g)"
    using assms(3,4) by (rule drain_phase)
  with True show ?thesis
    by (simp add: readAloud_played_def Let_def)
next
  case False
  from assms(1) have "phase A B C (emit [PlayFailed 0, WarnPlay 0] g)"
    by (simp add: phase_emit)
  then have "phase A B C (set_pc 0 (RA_Done RetUndefined) (emit [PlayFailed 0, WarnPlay 0] g))"
    by (rule phase_done)
  with False show ?thesis
    by (simp add: readAloud_played_def)
qed

lemma phase_not_stopping: "phase A B C g \<Longrightarrow> ra_pc (readers g ! 0) \<noteq> RA_AwaitStop p"
  by (auto simp: phase_def)

lemma phase_step:
  assumes "phase A B C g" "\<not> is_invoke i" "B \<noteq> []" "C \<noteq> []"
  shows "phase A B C (step chunk i g)"
proof -
  have zero: "r = 0" if "r < length (readers g)" for r
    using that assms(1) by (simp add: phase_def)
  have ns: "ra_pc (readers g ! r) \<noteq> RA_AwaitStop p" if "r < length (readers g)" for r p
    using phase_not_stopping [OF assms(1), of p] zero [OF that] by simp
  show ?thesis
  proof (cases i)
    case (InvokeReadAloud t)
    with assms(2) show ?thesis by simp
  next
    case InvokeStopReading
    from assms(1) have "phase A B C (stopReading (Stopper (length (stoppers g))) g)"
      by (rule phase_stop)
    then show ?thesis
      unfolding InvokeStopReading by simp
  next
    case (SyncGot r e)
    show ?thesis
    proof (cases "r < length (readers g) \<and> ra_pc (readers g ! r) = RA_AwaitSync")
      case True
      with zero have r: "r = 0" by simp
      from True assms have "phase A B C (readAloud_synced chunk 0 e g)"
        by (intro phase_readAloud_synced) (simp_all add: r)
      with True SyncGot r show ?thesis by simp
    next
      case False
      with assms(1) SyncGot show ?thesis by auto
    qed
  next
    case (SynSyncGot c j k)
    with assms(1) phase_synthesize(1) [OF assms(1), of c j k] show ?thesis by auto
  next
    case (FetchDone c j res)
    with assms(1) phase_synthesize(2) [OF assms(1), of c j res] show ?thesis by auto
  next
    case (TabsGot n b)
    with assms(1) show ?thesis by auto
  next
    case (SinkReady t ok)
    have 1: "phase A B C (readAloud_sink r u ok g)"
      if "r < length (readers g)" "ra_pc (readers g ! r) = RA_AwaitSink u" for r u
      using phase_readAloud_sink [OF assms(1), where u = u and ok = ok] that zero [OF that(1)] by simp
    have 2: "phase A B C (synth_stop_resume c j p m ok g)" for c j p m
      using assms(1) by (rule phase_synthesize)
    from assms(1) 1 2 ns show ?thesis
      unfolding SinkReady
      by (auto simp: sink_ready_def split: tid.split ra_pc.split stop_pc.split syn_pc.split)
  next
    case (Reply t ok)
    have 1: "phase A B C (readAloud_played chunk r ok g)"
      if "r < length (readers g)" "ra_pc (readers g ! r) = RA_AwaitPlay" for r
      using phase_readAloud_played [OF assms(1) _ assms(3,4), where ok = ok and chunk = chunk] that zero [OF that(1)] by simp
    have 2: "phase A B C (synth_stop_resume c j p m ok g)" for c j p m
      using assms(1) by (rule phase_synthesize)
    from assms(1) 1 2 ns show ?thesis
      unfolding Reply
      by (auto simp: reply_def split: tid.split ra_pc.split stop_pc.split syn_pc.split)
  qed
qed

lemma phase_run:
  assumes "phase A B C g" "\<forall>i\<in>set ins. \<not> is_invoke i" "B \<noteq> []" "C \<noteq> []"
  shows "phase A B C (run chunk ins g)"
  using assms(1,2)
proof (induction ins arbitrary: g)
  case Nil
  then show ?case by simp
next
  case (Cons i ins)
  from Cons.prems have "phase A B C (step chunk i g)"
    by (intro phase_step assms(3,4)) simp_all
  with Cons show ?case
    by simp
qed

lemma phase_start:
  assumes "chunk t = [A, B, C]"
  shows "phase A B C (step chunk (InvokeReadAloud t) init)"
  using assms
  by (simp add: phase_def readAloud_def readAloud_begin_def init_def Let_def updateContextMenus_def
                emit_def)

section \<open>The claims\<close>

subsection \<open>Calls and playbacks in flight\<close>

text \<open>
  C1, as it is stated, fails in the first round of the loop: the prefetch of the second
  chunk is started at line 105 and the audio of the first chunk is requested at line 109,
  so two \<^verbatim>\<open>getAudioUri\<close> calls are pending at once.
\<close>

theorem two_calls_in_flight:
  "ra_pc (readers two_chunks_started ! 0) = RA_AwaitAudio 1
   \<and> filter is_req (trace two_chunks_started) = [ReqAudio 0 ''B'', ReqAudio 0 ''A'']
   \<and> inflight 0 two_chunks_started = 2"
  by (simp add: two_chunks_started_def model_defs chunk_chars_def inflight_def Let_def)

text \<open>
  C1, amended. At every instant of every run of the service worker, each invocation of
  \<^verbatim>\<open>readAloud\<close> has at most two \<^verbatim>\<open>getAudioUri\<close> calls pending (the one whose audio it
  awaits and the prefetch of the next chunk), at most one when it is not waiting for audio
  (in particular while a chunk is being played), and none before its loop has started; and
  it has exactly one \<^verbatim>\<open>play\<close> message unanswered while it is suspended on line 115, and
  none otherwise.
\<close>

theorem calls_and_playbacks_in_flight:
  "let g = run chunk ins init
   in \<forall>r<length (readers g).
        inflight r g \<le> 2
        \<and> (\<not> awaits_audio (ra_pc (readers g ! r)) \<longrightarrow> inflight r g \<le> 1)
        \<and> (before_loop (ra_pc (readers g ! r)) \<longrightarrow> inflight r g = 0)
        \<and> playbacks r g = (if ra_pc (readers g ! r) = RA_AwaitPlay then 1 else 0)"
proof -
  define g where "g = run chunk ins init"
  have t: "tidy g" and b: "balanced g"
    unfolding g_def by (intro tidy_run tidy_init, intro balanced_run balanced_init)
  have "inflight r g \<le> 2
        \<and> (\<not> awaits_audio (ra_pc (readers g ! r)) \<longrightarrow> inflight r g \<le> 1)
        \<and> (before_loop (ra_pc (readers g ! r)) \<longrightarrow> inflight r g = 0)
        \<and> playbacks r g = (if ra_pc (readers g ! r) = RA_AwaitPlay then 1 else 0)"
    if r: "r < length (readers g)" for r
  proof -
    from inflight_bound(1) [OF t r]
    have 1: "inflight r g \<le> 2" "\<not> awaits_audio (ra_pc (readers g ! r)) \<longrightarrow> inflight r g \<le> 1"
      by (simp_all split: if_splits)
    from inflight_bound(2) [OF t r]
    have 2: "before_loop (ra_pc (readers g ! r)) \<longrightarrow> inflight r g = 0"
      by simp
    from balanced_playbacks [OF b, of r] r
    have 3: "playbacks r g = (if ra_pc (readers g ! r) = RA_AwaitPlay then 1 else 0)"
      by simp
    from 1 2 3 show ?thesis
      by simp
  qed
  then show ?thesis
    unfolding Let_def g_def by blast
qed

theorem calls_and_playbacks_in_flight_witness:
  "0 < length (readers playing_first) \<and> ra_pc (readers playing_first ! 0) = RA_AwaitPlay
   \<and> inflight 0 playing_first \<le> 1 \<and> playbacks 0 playing_first = 1"
proof -
  have h: "0 < length (readers playing_first)" "ra_pc (readers playing_first ! 0) = RA_AwaitPlay"
    by (simp_all add: playing_first_eq)
  from calls_and_playbacks_in_flight
         [of chunk_chars "[InvokeReadAloud ''ABC'', SyncGot 0 ''OGG_OPUS'', SynSyncGot 0 0 True,
            SynSyncGot 1 0 True, FetchDone 1 0 (FetchOk ''a''), SinkReady (Reader 0) True]",
          folded playing_first_def]
  have "\<forall>r<length (readers playing_first).
          (\<not> awaits_audio (ra_pc (readers playing_first ! r)) \<longrightarrow> inflight r playing_first \<le> 1)
          \<and> playbacks r playing_first = (if ra_pc (readers playing_first ! r) = RA_AwaitPlay then 1 else 0)"
    unfolding Let_def by blast
  with h show ?thesis
    by auto
qed

subsection \<open>The order of requests and playbacks\<close>

text \<open>
  C6, as it is stated, fails in its second half. In the run where everything succeeds, the
  audio of the third chunk is requested at the top of the second round of the loop
  (line 105), as soon as the playback of the first chunk has ended and before the
  \<^verbatim>\<open>play\<close> message for the second chunk is sent.
\<close>

theorem third_chunk_requested_before_second_plays:
  "marks (trace (run chunk_chars normal_run init))
     = [Requested ''B'', Requested ''A'', Begun, Ended, Requested ''C'', Begun, Ended, Begun, Ended]"
  by (simp add: normal_run_def model_defs chunk_chars_def marks_def map_filter_def Let_def)

text \<open>
  C6, amended. \<^verbatim>\<open>readAloud\<close> is invoked in the initial state with a text of three chunks
  \<open>A\<close>, \<open>B\<close>, \<open>C\<close>, the last two not empty. Whatever the browser does afterwards, in any
  order (syntheses and playbacks succeed or fail, \<^verbatim>\<open>stopReading\<close> is called), as long as
  \<^verbatim>\<open>readAloud\<close> is not invoked again, the requests for audio, the \<^verbatim>\<open>play\<close> messages and
  the ends of playbacks occur in this order: request \<open>B\<close>, request \<open>A\<close>, play, ended,
  request \<open>C\<close>, play, ended, play, ended; a session that fails or is stopped shows a
  beginning of this sequence. So \<open>B\<close> is requested before the playback of \<open>A\<close> begins,
  and \<open>C\<close> is requested once the playback of \<open>A\<close> has ended, before the playback of
  \<open>B\<close> begins.
\<close>

theorem request_and_playback_order:
  assumes "chunk t = [A, B, C]" and "B \<noteq> []" and "C \<noteq> []"
    and "\<forall>i\<in>set ins. \<not> is_invoke i"
  shows "prefix (marks (trace (run chunk (InvokeReadAloud t # ins) init)))
           [Requested B, Requested A, Begun, Ended, Requested C, Begun, Ended, Begun, Ended]"
proof -
  have "phase A B C (step chunk (InvokeReadAloud t) init)"
    using assms(1) by (rule phase_start)
  then have "phase A B C (run chunk ins (step chunk (InvokeReadAloud t) init))"
    using assms(4,2,3) by (rule phase_run)
  then have "prefix (marks (trace (run chunk ins (step chunk (InvokeReadAloud t) init)))) (canon A B C)"
    by (rule phase_prefix)
  then show ?thesis
    by (simp add: canon_def)
qed

theorem request_and_playback_order_witness:
  "chunk_chars ''ABC'' = [''A'', ''B'', ''C'']
   \<and> marks (trace (run chunk_chars
         (InvokeReadAloud ''ABC'' #
            [SyncGot 0 ''OGG_OPUS'', SynSyncGot 0 0 True, SynSyncGot 1 0 True,
             FetchDone 1 0 (FetchOk ''a''), SinkReady (Reader 0) True, Reply (Reader 0) True]) init))
       = [Requested ''B'', Requested ''A'', Begun, Ended, Requested ''C'']
   \<and> prefix (marks (trace (run chunk_chars
         (InvokeReadAloud ''ABC'' #
            [SyncGot 0 ''OGG_OPUS'', SynSyncGot 0 0 True, SynSyncGot 1 0 True,
             FetchDone 1 0 (FetchOk ''a''), SinkReady (Reader 0) True, Reply (Reader 0) True]) init)))
        [Requested ''B'', Requested ''A'', Begun, Ended, Requested ''C'', Begun, Ended, Begun, Ended]"
proof -
  let ?ins = "[SyncGot 0 ''OGG_OPUS'', SynSyncGot 0 0 True, SynSyncGot 1 0 True,
               FetchDone 1 0 (FetchOk ''a''), SinkReady (Reader 0) True, Reply (Reader 0) True]"
  have h: "chunk_chars ''ABC'' = [''A'', ''B'', ''C'']" "''B'' \<noteq> []" "''C'' \<noteq> []"
    "\<forall>i\<in>set ?ins. \<not> is_invoke i"
    by (simp_all add: chunk_chars_def)
  have m: "marks (trace (run chunk_chars (InvokeReadAloud ''ABC'' # ?ins) init))
             = [Requested ''B'', Requested ''A'', Begun, Ended, Requested ''C'']"
    by (simp add: model_defs chunk_chars_def marks_def map_filter_def Let_def)
  from request_and_playback_order [where chunk = chunk_chars and t = "''ABC''", OF h] h(1) m show ?thesis
    by blast
qed

subsection \<open>Stopping while idle\<close>



subsection \<open>A playback that fails\<close>

text \<open>
  C9. When the \<^verbatim>\<open>play\<close> message of a reader is rejected, \<^verbatim>\<open>readAloud\<close> takes the
  \<^verbatim>\<open>catch\<close> of line 120 and returns at line 126: it ends with \<^verbatim>\<open>undefined\<close>, and
  \<^verbatim>\<open>playing\<close>, \<^verbatim>\<open>queue\<close> and \<^verbatim>\<open>cancellationToken\<close> are exactly what they were.
  So a session that was playing still reads as playing, and the chunks that were not played
  stay queued.
\<close>

theorem play_failure_leaves_playing:
  assumes "r < length (readers g)" and "ra_pc (readers g ! r) = RA_AwaitPlay"
  shows "let g' = step chunk (Reply (Reader r) False) g
         in ra_pc (readers g' ! r) = RA_Done RetUndefined
            \<and> playing g' = playing g \<and> queue g' = queue g
            \<and> cancellationToken g' = cancellationToken g
            \<and> news g g' = [PlayFailed r, WarnPlay r]"
  using assms by (simp add: model_defs news_def Let_def)

theorem play_failure_leaves_playing_witness:
  "let g = run chunk_chars [InvokeReadAloud ''ABC'', SyncGot 0 ''OGG_OPUS'', SynSyncGot 0 0 True,
                            SynSyncGot 1 0 True, FetchDone 1 0 (FetchOk ''a''), SinkReady (Reader 0) True] init;
       g' = step chunk_chars (Reply (Reader 0) False) g
   in 0 < length (readers g) \<and> ra_pc (readers g ! 0) = RA_AwaitPlay
      \<and> ra_pc (readers g' ! 0) = RA_Done RetUndefined \<and> playing g' \<and> queue g' = [''B'', ''C'']"
proof -
  let ?g = "run chunk_chars [InvokeReadAloud ''ABC'', SyncGot 0 ''OGG_OPUS'', SynSyncGot 0 0 True,
                            SynSyncGot 1 0 True, FetchDone 1 0 (FetchOk ''a''), SinkReady (Reader 0) True] init"
  have len: "0 < length (readers ?g)"
    by (simp add: model_defs chunk_chars_def Let_def)
  have pc: "ra_pc (readers ?g ! 0) = RA_AwaitPlay"
    by (simp add: model_defs chunk_chars_def Let_def)
  have st: "playing ?g \<and> queue ?g = [''B'', ''C'']"
    by (simp add: model_defs chunk_chars_def Let_def)
  from play_failure_leaves_playing [OF len pc, of chunk_chars] len pc st
  show ?thesis unfolding Let_def by metis
qed

subsection \<open>Stopping while a chunk is being synthesized\<close>

text \<open>
  C10. The loop reads \<^verbatim>\<open>cancellationToken\<close> only at line 94. Take any state in which a
  reader has dequeued a chunk and waits for its audio (the request is on the network), and
  let \<^verbatim>\<open>stopReading\<close> run to its end: the \<^verbatim>\<open>stop\<close> message is sent and answered, the
  queue is empty, the token is set. When the audio then arrives, the reader still sends the
  \<^verbatim>\<open>play\<close> message for that chunk, after the stop has returned. Only when that playback
  is over does the loop end, and it ends at its test (line 93, the queue is empty) without
  ever reading the token, which is still set.
\<close>

theorem stop_during_synthesis_still_plays:
  assumes "r < length (readers g)" and "ra_pc (readers g ! r) = RA_AwaitAudio c"
    and "c < length (calls g)" and "c_owner (calls g ! c) = r" and "c_result (calls g ! c) = None"
    and "c_subs (calls g ! c) = [(a, SY_AwaitFetch)]"
  shows "let k = length (stoppers g);
             g1 = run chunk [InvokeStopReading, SinkReady (Stopper k) True, Reply (Stopper k) True] g;
             g2 = run chunk [FetchDone c 0 (FetchOk audio), SinkReady (Reader r) True] g1;
             g3 = step chunk (Reply (Reader r) True) g2
         in stoppers g1 ! k = None \<and> cancellationToken g1 \<and> queue g1 = [] \<and> \<not> playing g1
            \<and> news g g1 = [UpdateContextMenus False, AcquireSink (Stopper k), SendStop (Stopper k),
                            StopReturned (Stopper k)]
            \<and> news g1 g2 = [Analytics (length a), AcquireSink (Reader r),
                             SendPlay r (Some (DataUri (c_encoding (calls g ! c)) [audio]))]
            \<and> ra_pc (readers g2 ! r) = RA_AwaitPlay
            \<and> ra_pc (readers g3 ! r) = RA_Done RetTrue \<and> cancellationToken g3"
  using assms by (simp add: model_defs news_def Let_def)

theorem stop_during_synthesis_still_plays_witness:
  "let g = run chunk_chars [InvokeReadAloud ''AB'', SyncGot 0 ''OGG_OPUS'', SynSyncGot 1 0 True] init;
       g1 = run chunk_chars [InvokeStopReading, SinkReady (Stopper (length (stoppers g))) True,
                             Reply (Stopper (length (stoppers g))) True] g;
       g2 = run chunk_chars [FetchDone 1 0 (FetchOk ''a''), SinkReady (Reader 0) True] g1
   in 0 < length (readers g) \<and> ra_pc (readers g ! 0) = RA_AwaitAudio 1
      \<and> 1 < length (calls g) \<and> c_owner (calls g ! 1) = 0 \<and> c_result (calls g ! 1) = None
      \<and> c_subs (calls g ! 1) = [(''A'', SY_AwaitFetch)]
      \<and> length (stoppers g) = 0 \<and> c_encoding (calls g ! 1) = ''OGG_OPUS''
      \<and> news g g1 = [UpdateContextMenus False, AcquireSink (Stopper (length (stoppers g))),
                      SendStop (Stopper (length (stoppers g))), StopReturned (Stopper (length (stoppers g)))]
      \<and> news g1 g2 = [Analytics (length ''A''), AcquireSink (Reader 0),
                       SendPlay 0 (Some (DataUri (c_encoding (calls g ! 1)) [''a'']))]"
proof -
  let ?g = "run chunk_chars [InvokeReadAloud ''AB'', SyncGot 0 ''OGG_OPUS'', SynSyncGot 1 0 True] init"
  have h: "0 < length (readers ?g)" "ra_pc (readers ?g ! 0) = RA_AwaitAudio 1"
    "1 < length (calls ?g)" "c_owner (calls ?g ! 1) = 0" "c_result (calls ?g ! 1) = None"
    "c_subs (calls ?g ! 1) = [(''A'', SY_AwaitFetch)]"
    by (simp_all add: model_defs chunk_chars_def Let_def)
  have more: "length (stoppers ?g) = 0" "c_encoding (calls ?g ! 1) = ''OGG_OPUS''"
    by (simp_all add: model_defs chunk_chars_def Let_def)
  from stop_during_synthesis_still_plays [OF h, of chunk_chars "''a''", unfolded Let_def] h more
  show ?thesis unfolding Let_def by blast
qed

subsection \<open>What stopReading leaves behind\<close>

text \<open>
  C2, as it is stated, fails in three ways, shown on the session \<open>playing_first\<close>.

  \<^item> \<^verbatim>\<open>createOffscreenDocument\<close> rejects: the \<^verbatim>\<open>catch\<close> of line 169 logs a warning and
    \<^verbatim>\<open>stopReading\<close> returns without having sent the \<^verbatim>\<open>stop\<close> message.
  \<^item> \<^verbatim>\<open>readAloud\<close> is invoked while \<^verbatim>\<open>stopReading\<close> waits for the offscreen document:
    \<^verbatim>\<open>playing\<close> is false by then, so the new session starts at once (lines 81 to 85), and
    when \<^verbatim>\<open>stopReading\<close> returns \<^verbatim>\<open>playing\<close> is true and the new chunks are queued.
  \<^item> a \<^verbatim>\<open>readAloud\<close> is inside its initial \<^verbatim>\<open>stopReading\<close> (line 79) when
    \<^verbatim>\<open>stopReading\<close> is called: it goes on to lines 81 to 85 before the later
    \<^verbatim>\<open>stopReading\<close> returns.
\<close>

theorem stopReading_postcondition_counterexample:
  "(let g' = run chunk_chars [InvokeStopReading, SinkReady (Stopper 0) False] playing_first
    in stoppers g' ! 0 = None
       \<and> news playing_first g'
           = [UpdateContextMenus False, AcquireSink (Stopper 0), WarnStop (Stopper 0),
              StopReturned (Stopper 0)])
   \<and> (let g' = run chunk_chars [InvokeStopReading, InvokeReadAloud ''XY'', SinkReady (Stopper 0) True,
                                 Reply (Stopper 0) True] playing_first
      in stoppers g' ! 0 = None \<and> playing g' \<and> queue g' = [''X'', ''Y''])
   \<and> (let g' = run chunk_chars [InvokeReadAloud ''XY'', InvokeStopReading, SinkReady (Reader 1) True,
                                 Reply (Reader 1) True, SinkReady (Stopper 0) True,
                                 Reply (Stopper 0) True] playing_first
      in stoppers g' ! 0 = None \<and> playing g' \<and> queue g' = [''X'', ''Y''])"
  by (simp add: playing_first_eq model_defs chunk_chars_def news_def Let_def)

text \<open>
  C2, amended. \<^verbatim>\<open>stopReading\<close> is called in any state in which no \<^verbatim>\<open>readAloud\<close> is
  inside its own initial \<^verbatim>\<open>stopReading\<close>: idle, or anywhere in the loop of a session.
  Whatever the browser does next, in any order (audio arrives or fails, playbacks end or
  fail, other stops run), as long as \<^verbatim>\<open>readAloud\<close> is not invoked: \<^verbatim>\<open>playing\<close> is false
  and the queue is empty from the call on, and once this \<^verbatim>\<open>stopReading\<close> has returned,
  the \<^verbatim>\<open>stop\<close> message has been sent, unless the acquisition of the offscreen document
  was rejected.
\<close>

theorem stopReading_postcondition:
  assumes "\<not> starting g" and "\<forall>i\<in>set ins. \<not> is_invoke i"
  shows "let k = length (stoppers g); g' = run chunk (InvokeStopReading # ins) g
         in \<not> playing g' \<and> queue g' = []
            \<and> (stoppers g' ! k = None \<and> SinkReady (Stopper k) False \<notin> set ins \<longrightarrow>
                 SendStop (Stopper k) \<in> set (news g g'))"
proof -
  let ?k = "length (stoppers g)"
  let ?g1 = "step chunk InvokeStopReading g"
  have g1: "queue ?g1 = []" "\<not> playing ?g1" "\<not> starting ?g1"
    "?k < length (stoppers ?g1)" "stoppers ?g1 ! ?k = Some ST_AwaitSink"
    using assms(1) by simp_all
  from frozen_run [OF assms(2) g1(1) g1(3), of chunk] g1(2)
  have idle: "\<not> playing (run chunk ins ?g1)" "queue (run chunk ins ?g1) = []"
    by simp_all
  have "SendStop (Stopper ?k) \<in> set (news g (run chunk ins ?g1))"
    if "stoppers (run chunk ins ?g1) ! ?k = None" "SinkReady (Stopper ?k) False \<notin> set ins"
  proof -
    from stopper_sends_run [OF g1(4) g1(5) that(2), of chunk] that(1)
    have "SendStop (Stopper ?k) \<in> set (news ?g1 (run chunk ins ?g1))"
      by simp
    then show ?thesis
      unfolding news_step_run [of g chunk ins InvokeStopReading] by simp
  qed
  with idle show ?thesis
    by simp
qed

theorem stopReading_postcondition_witness:
  "\<not> starting playing_first \<and> playing playing_first \<and> queue playing_first = [''B'', ''C'']
   \<and> (let g' = run chunk_chars [InvokeStopReading, SinkReady (Stopper 0) True, Reply (Reader 0) False,
                                 Reply (Stopper 0) True] playing_first
      in stoppers g' ! 0 = None \<and> \<not> playing g' \<and> queue g' = []
         \<and> SendStop (Stopper 0) \<in> set (news playing_first g'))"
proof -
  let ?ins = "[SinkReady (Stopper 0) True, Reply (Reader 0) False, Reply (Stopper 0) True]"
  define g' where "g' = run chunk_chars (InvokeStopReading # ?ins) playing_first"
  have len: "length (stoppers playing_first) = 0"
    by (simp add: playing_first_eq)
  have h: "\<not> starting playing_first" "\<forall>i\<in>set ?ins. \<not> is_invoke i"
    by (simp_all add: playing_first_eq starting_def)
  have ret: "stoppers g' ! 0 = None" "SinkReady (Stopper 0) False \<notin> set ?ins"
    unfolding g'_def by (simp_all add: playing_first_eq model_defs Let_def)
  have more: "playing playing_first" "queue playing_first = [''B'', ''C'']"
    by (simp_all add: playing_first_eq)
  from stopReading_postcondition [OF h, of chunk_chars]
  have "\<not> playing g' \<and> queue g' = []
        \<and> (stoppers g' ! 0 = None \<and> SinkReady (Stopper 0) False \<notin> set ?ins \<longrightarrow>
             SendStop (Stopper 0) \<in> set (news playing_first g'))"
    unfolding Let_def len g'_def by blast
  with ret h(1) more show ?thesis
    unfolding Let_def g'_def by blast
qed

subsection \<open>readAloud while a session is playing\<close>

text \<open>
  C5, as it is stated, fails when \<^verbatim>\<open>createOffscreenDocument\<close> rejects inside the
  \<^verbatim>\<open>stopReading\<close> of line 79: the \<^verbatim>\<open>catch\<close> of line 169 logs a warning,
  \<^verbatim>\<open>stopReading\<close> returns, and the new session requests the audio of its chunks although
  no \<^verbatim>\<open>stop\<close> message was ever sent.
\<close>

theorem restart_without_stop_counterexample:
  "playing playing_first
   \<and> news playing_first
        (run chunk_chars [InvokeReadAloud ''XY'', SinkReady (Reader 1) False, SyncGot 1 ''OGG_OPUS'']
           playing_first)
       = [UpdateContextMenus False, AcquireSink (Reader 1), WarnStop (Reader 1), StopReturned (Reader 1),
          UpdateContextMenus True, ReqAudio 1 ''Y'', ReqAudio 1 ''X'']"
  by (simp add: playing_first_eq model_defs chunk_chars_def news_def Let_def)

text \<open>
  C5, amended. \<^verbatim>\<open>readAloud\<close> is invoked while \<^verbatim>\<open>playing\<close> is true; it becomes reader
  \<open>r\<close>. Whatever the browser does afterwards, in any order: among the events added to the
  trace, no request for audio by reader \<open>r\<close> comes before the return of its
  \<^verbatim>\<open>stopReading\<close>, and, unless the acquisition of the offscreen document by this
  \<^verbatim>\<open>stopReading\<close> was rejected, that return does not come before the \<^verbatim>\<open>stop\<close> message
  was sent.
\<close>

theorem restart_stops_first:
  assumes "playing g"
  shows "let r = length (readers g); g' = run chunk (InvokeReadAloud txt # ins) g
         in preceded ((=) (StopReturned (Reader r))) (req_of r) (news g g')
            \<and> (SinkReady (Reader r) False \<notin> set ins \<longrightarrow>
                 preceded ((=) (SendStop (Reader r))) ((=) (StopReturned (Reader r))) (news g g'))"
proof -
  let ?r = "length (readers g)"
  let ?g1 = "step chunk (InvokeReadAloud txt) g"
  have "parked ?r (RA_AwaitStop ST_AwaitSink) (trace g) ?g1"
    using assms by (simp add: parked_def readAloud_def Let_def)
  from parked_run [OF this, where chunk = chunk and ins = ins] show ?thesis
    by (simp add: news_def)
qed

theorem restart_stops_first_witness:
  "playing playing_first \<and> length (readers playing_first) = 1
   \<and> SinkReady (Reader 1) False \<notin> set [SinkReady (Reader 1) True, Reply (Reader 0) False,
                                           Reply (Reader 1) True, SyncGot 1 ''OGG_OPUS'']
   \<and> preceded ((=) (StopReturned (Reader 1))) (req_of 1)
        (news playing_first
           (run chunk_chars (InvokeReadAloud ''XY'' # [SinkReady (Reader 1) True, Reply (Reader 0) False,
                              Reply (Reader 1) True, SyncGot 1 ''OGG_OPUS'']) playing_first))
   \<and> preceded ((=) (SendStop (Reader 1))) ((=) (StopReturned (Reader 1)))
        (news playing_first
           (run chunk_chars (InvokeReadAloud ''XY'' # [SinkReady (Reader 1) True, Reply (Reader 0) False,
                              Reply (Reader 1) True, SyncGot 1 ''OGG_OPUS'']) playing_first))
   \<and> news playing_first
           (run chunk_chars (InvokeReadAloud ''XY'' # [SinkReady (Reader 1) True, Reply (Reader 0) False,
                              Reply (Reader 1) True, SyncGot 1 ''OGG_OPUS'']) playing_first)
       = [UpdateContextMenus False, AcquireSink (Reader 1), SendStop (Reader 1), PlayFailed 0, WarnPlay 0,
          StopReturned (Reader 1), UpdateContextMenus True, ReqAudio 1 ''Y'', ReqAudio 1 ''X'']"
proof -
  let ?ins = "[SinkReady (Reader 1) True, Reply (Reader 0) False, Reply (Reader 1) True, SyncGot 1 ''OGG_OPUS'']"
  have h: "playing playing_first"
    by (simp add: playing_first_eq)
  have len: "length (readers playing_first) = 1"
    by (simp add: playing_first_eq)
  have ok: "SinkReady (Reader 1) False \<notin> set ?ins"
    by simp
  have tr: "news playing_first (run chunk_chars (InvokeReadAloud ''XY'' # ?ins) playing_first)
       = [UpdateContextMenus False, AcquireSink (Reader 1), SendStop (Reader 1), PlayFailed 0, WarnPlay 0,
          StopReturned (Reader 1), UpdateContextMenus True, ReqAudio 1 ''Y'', ReqAudio 1 ''X'']"
    by (simp add: playing_first_eq model_defs chunk_chars_def news_def Let_def)
  from restart_stops_first [OF h, of chunk_chars "''XY''" ?ins] h len ok tr show ?thesis
    unfolding Let_def len by blast
qed

subsection \<open>A synthesis that fails\<close>

text \<open>
  C3. The first chunk of two cannot be synthesized. When the API key is missing,
  \<^verbatim>\<open>synthesize\<close> throws at line 218 and \<^verbatim>\<open>readAloud\<close> ends with that exception, but
  nothing resets the session: \<^verbatim>\<open>playing\<close> is still true and the second chunk is still
  queued. When the backend refuses the request, \<^verbatim>\<open>synthesize\<close> first awaits
  \<^verbatim>\<open>stopReading\<close> (line 260) and then throws: the same session ends with
  \<^verbatim>\<open>playing\<close> false and the queue empty.
\<close>

theorem auth_failure_leaves_playing:
  "ra_pc (readers (run chunk_chars missing_key init) ! 0) = RA_Done (Threw AuthError)
   \<and> playing (run chunk_chars missing_key init)
   \<and> queue (run chunk_chars missing_key init) = [''B'']
   \<and> ra_pc (readers (run chunk_chars backend_refuses init) ! 0)
       = RA_Done (Threw (BackendError (Some ''quota'')))
   \<and> \<not> playing (run chunk_chars backend_refuses init)
   \<and> queue (run chunk_chars backend_refuses init) = []"
  by (simp add: missing_key_def backend_refuses_def model_defs chunk_chars_def Let_def)




subsection \<open>One offscreen document\<close>




end
